theory Spec2Isabelle
  imports Main "HOL-Library.Sublist"
begin

section \<open>Texts\<close>

text \<open>
  The two components verified here are \<^verbatim>\<open>find_json_containing\<close> of
  \<^verbatim>\<open>json_extractor.py\<close> (the Structured-Block Locator) and
  \<^verbatim>\<open>find_rate_limit_pattern\<close>, \<^verbatim>\<open>parse_time_with_timezone\<close> and \<^verbatim>\<open>main\<close> of
  \<^verbatim>\<open>rate_limit_parser.py\<close> (the Rate-Limit Resolver).

  A Python \<^verbatim>\<open>str\<close> is modelled as a \<^typ>\<open>string\<close>: a list of characters, each
  character standing for the code point of the same number, so the texts of the model are
  the texts whose code points are below 256. The library functions of Python that the
  two components call (string methods, \<^verbatim>\<open>re\<close>, \<^verbatim>\<open>int\<close>, \<^verbatim>\<open>json.loads\<close>,
  \<^verbatim>\<open>datetime\<close>, \<^verbatim>\<open>zoneinfo\<close>) are written out for that range. The detection
  of the Resolver is given a second time for texts of any code points, in a section of
  its own.
\<close>

subsection \<open>Character classes\<close>

text \<open>\<^verbatim>\<open>str.isspace\<close>, which is also what \<^verbatim>\<open>str.strip()\<close> removes and what
  \<^verbatim>\<open>\s\<close> matches in a \<^verbatim>\<open>str\<close> pattern.\<close>

definition is_space :: "char \<Rightarrow> bool" where
  "is_space c \<longleftrightarrow> c \<in> set [CHR 0x09, CHR 0x0A, CHR 0x0B, CHR 0x0C, CHR 0x0D,
     CHR 0x1C, CHR 0x1D, CHR 0x1E, CHR 0x1F, CHR 0x20, CHR 0x85, CHR 0xA0]"

text \<open>\<^verbatim>\<open>\d\<close> and the digits \<^verbatim>\<open>int\<close> reads.\<close>

definition is_digit :: "char \<Rightarrow> bool" where
  "is_digit c \<longleftrightarrow> c \<in> set ''0123456789''"

text \<open>The class \<^verbatim>\<open>[A-Za-z]\<close>.\<close>

definition is_alpha :: "char \<Rightarrow> bool" where
  "is_alpha c \<longleftrightarrow> c \<in> set ''ABCDEFGHIJKLMNOPQRSTUVWXYZabcdefghijklmnopqrstuvwxyz''"

definition upper_chars :: "char list" where
  "upper_chars = ''ABCDEFGHIJKLMNOPQRSTUVWXYZ'' @
     [CHR 0xC0, CHR 0xC1, CHR 0xC2, CHR 0xC3, CHR 0xC4, CHR 0xC5, CHR 0xC6, CHR 0xC7,
      CHR 0xC8, CHR 0xC9, CHR 0xCA, CHR 0xCB, CHR 0xCC, CHR 0xCD, CHR 0xCE, CHR 0xCF,
      CHR 0xD0, CHR 0xD1, CHR 0xD2, CHR 0xD3, CHR 0xD4, CHR 0xD5, CHR 0xD6,
      CHR 0xD8, CHR 0xD9, CHR 0xDA, CHR 0xDB, CHR 0xDC, CHR 0xDD, CHR 0xDE]"

definition lower_chars :: "char list" where
  "lower_chars = ''abcdefghijklmnopqrstuvwxyz'' @
     [CHR 0xE0, CHR 0xE1, CHR 0xE2, CHR 0xE3, CHR 0xE4, CHR 0xE5, CHR 0xE6, CHR 0xE7,
      CHR 0xE8, CHR 0xE9, CHR 0xEA, CHR 0xEB, CHR 0xEC, CHR 0xED, CHR 0xEE, CHR 0xEF,
      CHR 0xF0, CHR 0xF1, CHR 0xF2, CHR 0xF3, CHR 0xF4, CHR 0xF5, CHR 0xF6,
      CHR 0xF8, CHR 0xF9, CHR 0xFA, CHR 0xFB, CHR 0xFC, CHR 0xFD, CHR 0xFE]"

text \<open>The lower-case mapping of one character: \<^verbatim>\<open>A\<close>-\<^verbatim>\<open>Z\<close> and the upper-case
  letters U+00C0 to U+00DE (U+00D7 is the multiplication sign) move to their lower-case
  forms, every other character below 256 stays.\<close>

definition lower_char :: "char \<Rightarrow> char" where
  "lower_char c = (case map_of (zip upper_chars lower_chars) c of Some l \<Rightarrow> l | None \<Rightarrow> c)"

text \<open>\<^verbatim>\<open>str.lower()\<close>\<close>

definition py_lower :: "string \<Rightarrow> string" where
  "py_lower s = map lower_char s"

subsection \<open>String methods\<close>

text \<open>\<^verbatim>\<open>str.strip()\<close>\<close>

definition py_strip :: "string \<Rightarrow> string" where
  "py_strip s = rev (dropWhile is_space (rev (dropWhile is_space s)))"

text \<open>\<^verbatim>\<open>s.rstrip(chars)\<close>\<close>

definition py_rstrip :: "string \<Rightarrow> string \<Rightarrow> string" where
  "py_rstrip chars s = rev (dropWhile (\<lambda>c. c \<in> set chars) (rev s))"

text \<open>\<^verbatim>\<open>needle in hay\<close> on two strings.\<close>

fun str_contains :: "'a list \<Rightarrow> 'a list \<Rightarrow> bool" where
  "str_contains hay needle =
     (prefix needle hay \<or> (case hay of [] \<Rightarrow> False | _ # t \<Rightarrow> str_contains t needle))"

text \<open>\<^verbatim>\<open>hay.find(needle)\<close>; \<^term>\<open>None\<close> is the result -1.\<close>

fun str_find :: "'a list \<Rightarrow> 'a list \<Rightarrow> nat option" where
  "str_find hay needle =
     (if prefix needle hay then Some 0
      else case hay of [] \<Rightarrow> None | _ # t \<Rightarrow> map_option Suc (str_find t needle))"

text \<open>\<^verbatim>\<open>s.split(sep)\<close> for a separator of one character.\<close>

fun py_split :: "char \<Rightarrow> string \<Rightarrow> string list" where
  "py_split sep [] = [[]]"
| "py_split sep (c # cs) =
     (if c = sep then [] # py_split sep cs
      else (c # hd (py_split sep cs)) # tl (py_split sep cs))"

text \<open>\<^verbatim>\<open>re.sub(r'\s+', '', s)\<close>: every run of white space is deleted.\<close>

definition remove_spaces :: "string \<Rightarrow> string" where
  "remove_spaces s = filter (\<lambda>c. \<not> is_space c) s"

subsection \<open>Reading an integer\<close>

text \<open>
  \<^verbatim>\<open>int(s)\<close> on a string: white space around the number is skipped (the file
  separators U+001C to U+001F are white space for \<^verbatim>\<open>strip\<close> but not for
  \<^verbatim>\<open>int\<close>), one sign is allowed, and single underscores may separate digits.
  \<^term>\<open>None\<close> is \<^verbatim>\<open>ValueError\<close>. The interpreter's bound on the number of
  digits (4300 by default) is not part of the model; the patterns capture at most two
  digits in a row.
\<close>

definition is_int_space :: "char \<Rightarrow> bool" where
  "is_int_space c \<longleftrightarrow> c \<in> set [CHR 0x09, CHR 0x0A, CHR 0x0B, CHR 0x0C, CHR 0x0D,
     CHR 0x20, CHR 0x85, CHR 0xA0]"

definition digit_val :: "char \<Rightarrow> int" where
  "digit_val c = int (length (takeWhile (\<lambda>d. d \<noteq> c) ''0123456789''))"

text \<open>The digits after the sign, read left to right with the value so far; the flag
  says that the previous character was a digit, which an underscore needs on its left
  and the end of the string needs too.\<close>

fun int_digits :: "string \<Rightarrow> int \<Rightarrow> bool \<Rightarrow> int option" where
  "int_digits [] acc prev_digit = (if prev_digit then Some acc else None)"
| "int_digits (c # cs) acc prev_digit =
     (if is_digit c then int_digits cs (10 * acc + digit_val c) True
      else if c = CHR ''_'' \<and> prev_digit \<and> cs \<noteq> [] \<and> is_digit (hd cs)
        then int_digits cs acc False
      else None)"

definition py_int :: "string \<Rightarrow> int option" where
  "py_int s =
     (let t = rev (dropWhile is_int_space (rev (dropWhile is_int_space s))) in
      case t of
        [] \<Rightarrow> None
      | c # cs \<Rightarrow>
          if c = CHR ''-'' then map_option uminus (int_digits cs 0 False)
          else if c = CHR ''+'' then int_digits cs 0 False
          else int_digits t 0 False)"

section \<open>Regular expressions\<close>

text \<open>
  The patterns of the two components use literals, the classes \<^verbatim>\<open>\d\<close>, \<^verbatim>\<open>\s\<close>,
  \<^verbatim>\<open>.\<close>, \<^verbatim>\<open>[A-Za-z]\<close>, \<^verbatim>\<open>[^)]\<close> and small sets, repetition of one class, optional parts,
  alternatives and groups. \<^verbatim>\<open>re\<close> matches by backtracking: the alternatives of a
  pattern are tried in a fixed order and the first way through the whole pattern is the
  match. The model lists every way a pattern can match at the front of a text in that
  order, so the head of the list is the match \<^verbatim>\<open>re\<close> finds.
\<close>

datatype atom = Ch char | Digit | Space | AnyChar | Alpha | NotCh char | OneOf "char list"

text \<open>The flag is \<^verbatim>\<open>re.IGNORECASE\<close>. \<^term>\<open>AnyChar\<close> is \<^verbatim>\<open>.\<close> under
  \<^verbatim>\<open>re.DOTALL\<close>, the only use of the dot in the two components.\<close>

fun atom_ok :: "bool \<Rightarrow> atom \<Rightarrow> char \<Rightarrow> bool" where
  "atom_ok ic (Ch x) c = (if ic then lower_char c = lower_char x else c = x)"
| "atom_ok ic Digit c = is_digit c"
| "atom_ok ic Space c = is_space c"
| "atom_ok ic AnyChar c = True"
| "atom_ok ic Alpha c = is_alpha c"
| "atom_ok ic (NotCh x) c = (\<not> (if ic then lower_char c = lower_char x else c = x))"
| "atom_ok ic (OneOf xs) c =
     (if ic then lower_char c \<in> lower_char ` set xs else c \<in> set xs)"

datatype regex =
    Atom atom
  | Rep atom nat "nat option"
  | RepLazy atom nat
  | Opt regex
  | Seq regex regex
  | Alt regex regex
  | Group nat regex

text \<open>A state of the matcher: the text not yet consumed, and the groups captured so
  far.\<close>

type_synonym mstate = "string \<times> (nat \<times> string) list"

text \<open>
  \<^term>\<open>Rep a lo hi\<close> is the greedy \<^verbatim>\<open>a{lo,hi}\<close> (\<^verbatim>\<open>a*\<close> is \<^term>\<open>Rep a 0 None\<close>,
  \<^verbatim>\<open>a+\<close> is \<^term>\<open>Rep a 1 None\<close>): the longest run first. \<^term>\<open>RepLazy a lo\<close> is
  the lazy \<^verbatim>\<open>a*?\<close> or \<^verbatim>\<open>a+?\<close>: the shortest run first. \<^term>\<open>Opt r\<close> is the
  greedy \<^verbatim>\<open>r?\<close>.
\<close>

fun rmatch :: "bool \<Rightarrow> regex \<Rightarrow> mstate \<Rightarrow> mstate list" where
  "rmatch ic (Atom a) (s, g) =
     (case s of [] \<Rightarrow> [] | c # cs \<Rightarrow> if atom_ok ic a c then [(cs, g)] else [])"
| "rmatch ic (Rep a lo hi) (s, g) =
     (let run = length (takeWhile (atom_ok ic a) s);
          n = (case hi of None \<Rightarrow> run | Some h \<Rightarrow> min h run)
      in map (\<lambda>k. (drop k s, g)) (rev [lo..<Suc n]))"
| "rmatch ic (RepLazy a lo) (s, g) =
     (let run = length (takeWhile (atom_ok ic a) s)
      in map (\<lambda>k. (drop k s, g)) [lo..<Suc run])"
| "rmatch ic (Opt r) st = rmatch ic r st @ [st]"
| "rmatch ic (Seq r1 r2) st = concat (map (rmatch ic r2) (rmatch ic r1 st))"
| "rmatch ic (Alt r1 r2) st = rmatch ic r1 st @ rmatch ic r2 st"
| "rmatch ic (Group i r) (s, g) =
     map (\<lambda>(s', g'). (s', (i, take (length s - length s') s) # g')) (rmatch ic r (s, g))"

text \<open>\<^verbatim>\<open>pattern.search(text)\<close>: the first match at the leftmost position that has
  one. The result is the text after the match and the groups.\<close>

fun re_search :: "bool \<Rightarrow> regex \<Rightarrow> string \<Rightarrow> mstate option" where
  "re_search ic r s =
     (case rmatch ic r (s, []) of
        m # _ \<Rightarrow> Some m
      | [] \<Rightarrow> (case s of [] \<Rightarrow> None | _ # t \<Rightarrow> re_search ic r t))"

text \<open>\<^verbatim>\<open>match.group(i)\<close> for a group that took part in the match, as the groups of
  the patterns below always do.\<close>

definition group :: "mstate \<Rightarrow> nat \<Rightarrow> string" where
  "group m i = (case map_of (snd m) i of Some t \<Rightarrow> t | None \<Rightarrow> [])"

text \<open>A literal word, and a sequence of patterns.\<close>

fun lit :: "string \<Rightarrow> regex" where
  "lit [] = Rep AnyChar 0 (Some 0)"
| "lit [c] = Atom (Ch c)"
| "lit (c # cs) = Seq (Atom (Ch c)) (lit cs)"

fun seqs :: "regex list \<Rightarrow> regex" where
  "seqs [] = Rep AnyChar 0 (Some 0)"
| "seqs [r] = r"
| "seqs (r # rs) = Seq r (seqs rs)"

section \<open>The Rate-Limit Resolver\<close>

subsection \<open>Detection: \<^verbatim>\<open>find_rate_limit_pattern\<close>\<close>

text \<open>The tail \<^verbatim>\<open>\s*\(([^)]+)\)\<close> that the four patterns share: the zone label in
  parentheses, group 2.\<close>

definition zone_part :: "regex list" where
  "zone_part = [Rep Space 0 None, Atom (Ch CHR ''(''),
                Group 2 (Rep (NotCh CHR '')'') 1 None), Atom (Ch CHR '')'')]"

text \<open>\<^verbatim>\<open>resets?\s+\<close>, the head they share.\<close>

definition resets_part :: "regex list" where
  "resets_part = [lit ''reset'', Opt (Atom (Ch CHR ''s'')), Rep Space 1 None]"

definition am_pm :: regex where
  "am_pm = Alt (lit ''am'') (lit ''pm'')"

text \<open>\<^verbatim>\<open>resets?\s+(\d{1,2}\s*(?:am|pm))\s*\(([^)]+)\)\<close>\<close>

definition pattern1 :: regex where
  "pattern1 = seqs (resets_part @
     [Group 1 (seqs [Rep Digit 1 (Some 2), Rep Space 0 None, am_pm])] @ zone_part)"

text \<open>\<^verbatim>\<open>resets?\s+(\d{1,2}:\d{2}\s*(?:am|pm))\s*\(([^)]+)\)\<close>\<close>

definition pattern2 :: regex where
  "pattern2 = seqs (resets_part @
     [Group 1 (seqs [Rep Digit 1 (Some 2), Atom (Ch CHR '':''), Rep Digit 2 (Some 2),
                     Rep Space 0 None, am_pm])] @ zone_part)"

text \<open>\<^verbatim>\<open>resets?\s+(\d{1,2}:\d{2})\s*\(([^)]+)\)\<close>\<close>

definition pattern3 :: regex where
  "pattern3 = seqs (resets_part @
     [Group 1 (seqs [Rep Digit 1 (Some 2), Atom (Ch CHR '':''), Rep Digit 2 (Some 2)])] @
     zone_part)"

text \<open>\<^verbatim>\<open>resets?\s+[A-Za-z]+\s+\d{1,2},?\s+\d{4},?\s+(\d{1,2}(?::\d{2})?\s*(?:am|pm))\s*\(([^)]+)\)\<close>\<close>

definition pattern4 :: regex where
  "pattern4 = seqs (resets_part @
     [Rep Alpha 1 None, Rep Space 1 None, Rep Digit 1 (Some 2), Opt (Atom (Ch CHR '','')),
      Rep Space 1 None, Rep Digit 4 (Some 4), Opt (Atom (Ch CHR '','')), Rep Space 1 None,
      Group 1 (seqs [Rep Digit 1 (Some 2),
                     Opt (Seq (Atom (Ch CHR '':'')) (Rep Digit 2 (Some 2))),
                     Rep Space 0 None, am_pm])] @ zone_part)"

text \<open>The bare patterns \<^verbatim>\<open>you'?ve hit your limit\<close>, \<^verbatim>\<open>rate limit exceeded\<close>,
  \<^verbatim>\<open>rate limited\<close> and \<^verbatim>\<open>too many requests\<close>.\<close>

definition bare_patterns :: "regex list" where
  "bare_patterns =
     [seqs [lit ''you'', Opt (Atom (Ch (CHR 0x27))), lit ''ve hit your limit''],
      lit ''rate limit exceeded'',
      lit ''rate limited'',
      lit ''too many requests'']"

definition BARE_PATTERN_MAX_CONTENT_SIZE :: nat where
  "BARE_PATTERN_MAX_CONTENT_SIZE = 500"

text \<open>The loop over the parseable patterns: the first pattern that matches anywhere
  gives the two stripped groups.\<close>

fun try_patterns :: "regex list \<Rightarrow> string \<Rightarrow> (string \<times> string) option" where
  "try_patterns [] content = None"
| "try_patterns (pattern # rest) content =
     (case re_search True pattern content of
        Some m \<Rightarrow> Some (py_strip (group m 1), py_strip (group m 2))
      | None \<Rightarrow> try_patterns rest content)"

text \<open>The result is the pair the source returns: the two captured strings (both
  \<^term>\<open>None\<close> when no time was captured) and the flag that a rate limit was
  detected.\<close>

definition find_rate_limit_pattern ::
  "string \<Rightarrow> (string option \<times> string option) \<times> bool" where
  "find_rate_limit_pattern content =
     (case try_patterns [pattern2, pattern1, pattern3, pattern4] content of
        Some (t, z) \<Rightarrow> ((Some t, Some z), True)
      | None \<Rightarrow>
          if length content \<le> BARE_PATTERN_MAX_CONTENT_SIZE \<and>
             (\<exists>bare_pattern \<in> set bare_patterns. re_search True bare_pattern content \<noteq> None)
          then ((None, None), True)
          else ((None, None), False))"

subsection \<open>Dates and times\<close>

text \<open>
  A zone of the system's database, as \<^verbatim>\<open>ZoneInfo\<close> holds it: the offset from UTC, in
  seconds, of the time before the first transition, and the transitions in ascending
  order, each with its instant (seconds since the epoch) and the offset that holds from
  that instant on. A zone that never changes its offset, like \<^verbatim>\<open>UTC\<close>, has no
  transition.
\<close>

record zone =
  z_before :: int
  z_transitions :: "(int \<times> int) list"

text \<open>
  An aware \<^verbatim>\<open>datetime\<close>: the date as its proleptic Gregorian ordinal
  (\<^verbatim>\<open>date.toordinal()\<close>, day 1 is 0001-01-01), the wall-clock fields, the attribute
  \<^verbatim>\<open>fold\<close> (0 or 1) and the zone.
\<close>

record datetime =
  dt_ordinal :: int
  dt_hour :: int
  dt_minute :: int
  dt_second :: int
  dt_microsecond :: int
  dt_fold :: int
  dt_tzinfo :: zone

datatype py_error = ValueError | OverflowError

text \<open>The ordinal of 1970-01-01 and of 9999-12-31.\<close>

definition EPOCH_ORDINAL :: int where
  "EPOCH_ORDINAL = 719163"

definition MAXORDINAL :: int where
  "MAXORDINAL = 3652059"

text \<open>The wall-clock reading of a datetime in seconds from 1970-01-01 00:00:00 on the
  same wall clock (\<^verbatim>\<open>_get_local_timestamp\<close> of \<^verbatim>\<open>zoneinfo\<close>).\<close>

definition local_timestamp :: "datetime \<Rightarrow> int" where
  "local_timestamp dt =
     (dt_ordinal dt - EPOCH_ORDINAL) * 86400 + dt_hour dt * 3600 + dt_minute dt * 60
       + dt_second dt"

text \<open>
  The offset of a zone at a wall-clock reading (\<^verbatim>\<open>_find_trans\<close> of \<^verbatim>\<open>zoneinfo\<close>).
  On the wall clock a transition happens at its instant plus the larger of the offsets
  before and after it when \<^verbatim>\<open>fold\<close> is 0, and plus the smaller one when \<^verbatim>\<open>fold\<close> is
  1. So where the clock is put back, a reading of the repeated interval has the old offset
  with fold 0 and the new one with fold 1; where it is put forward, a reading of the gap
  has the old offset with fold 0. The first argument is the offset before the transitions
  that are left.
\<close>

fun find_trans :: "int \<Rightarrow> (int \<times> int) list \<Rightarrow> int \<Rightarrow> int \<Rightarrow> int" where
  "find_trans off [] fld ts = off"
| "find_trans off ((instant, off') # rest) fld ts =
     (if ts < instant + (if fld = 0 then max off off' else min off off') then off
      else find_trans off' rest fld ts)"

text \<open>\<^verbatim>\<open>dt.utcoffset()\<close>\<close>

definition utcoffset :: "datetime \<Rightarrow> int" where
  "utcoffset dt =
     find_trans (z_before (dt_tzinfo dt)) (z_transitions (dt_tzinfo dt)) (dt_fold dt)
       (local_timestamp dt)"

text \<open>
  The offset and the fold of a zone at an instant (\<^verbatim>\<open>fromutc\<close> of \<^verbatim>\<open>zoneinfo\<close>):
  the offset is that of the last transition at or before the instant, and the fold is 1
  when that transition put the clock back by more than the time that has passed since.
\<close>

fun fromutc :: "int \<Rightarrow> (int \<times> int) list \<Rightarrow> int \<Rightarrow> int \<times> int" where
  "fromutc off [] t = (off, 0)"
| "fromutc off ((instant, off') # rest) t =
     (if t < instant then (off, 0)
      else if rest \<noteq> [] \<and> fst (hd rest) \<le> t then fromutc off' rest t
      else (off', if t - instant < off - off' then 1 else 0))"

text \<open>\<^verbatim>\<open>datetime.now(tz)\<close>, for a clock that reads \<open>clock\<close> microseconds since the
  epoch.\<close>

definition datetime_now :: "zone \<Rightarrow> int \<Rightarrow> datetime" where
  "datetime_now tz clock =
     (let (off, fld) = fromutc (z_before tz) (z_transitions tz) (clock div 1000000);
          local = clock div 1000000 + off;
          sod = local mod 86400
      in \<lparr>dt_ordinal = EPOCH_ORDINAL + local div 86400,
          dt_hour = sod div 3600, dt_minute = sod mod 3600 div 60, dt_second = sod mod 60,
          dt_microsecond = clock mod 1000000, dt_fold = fld, dt_tzinfo = tz\<rparr>)"

text \<open>\<^verbatim>\<open>dt.replace(hour=h, minute=m, second=0, microsecond=0)\<close>, which raises
  \<^verbatim>\<open>OverflowError\<close> for an argument that is no C integer and \<^verbatim>\<open>ValueError\<close> for
  an hour outside 0..23 or a minute outside 0..59. The date, the fold and the zone are
  kept.\<close>

definition dt_replace :: "datetime \<Rightarrow> int \<Rightarrow> int \<Rightarrow> py_error + datetime" where
  "dt_replace dt h m =
     (if h < - 2147483648 \<or> 2147483648 \<le> h \<or> m < - 2147483648 \<or> 2147483648 \<le> m
      then Inl OverflowError
      else if 0 \<le> h \<and> h \<le> 23 \<and> 0 \<le> m \<and> m \<le> 59
      then Inr (dt\<lparr>dt_hour := h, dt_minute := m, dt_second := 0, dt_microsecond := 0\<rparr>)
      else Inl ValueError)"

text \<open>\<^verbatim>\<open>a <= b\<close> for two datetimes that share their \<^verbatim>\<open>tzinfo\<close> object, as
  \<^verbatim>\<open>reset_time\<close> and \<^verbatim>\<open>now\<close> do: the date and the wall-clock fields are compared
  in order, and neither the fold nor the offset is looked at.\<close>

definition dt_le :: "datetime \<Rightarrow> datetime \<Rightarrow> bool" where
  "dt_le a b \<longleftrightarrow>
     dt_ordinal a < dt_ordinal b \<or> (dt_ordinal a = dt_ordinal b \<and>
     (dt_hour a < dt_hour b \<or> (dt_hour a = dt_hour b \<and>
     (dt_minute a < dt_minute b \<or> (dt_minute a = dt_minute b \<and>
     (dt_second a < dt_second b \<or> (dt_second a = dt_second b \<and>
      dt_microsecond a \<le> dt_microsecond b)))))))"

text \<open>\<^verbatim>\<open>dt + timedelta(days=d, seconds=s)\<close>: arithmetic on the wall clock, with a
  day of 86400 seconds. The zone is kept and the fold of the result is 0.
  \<^verbatim>\<open>OverflowError\<close> is raised when the date leaves the calendar.\<close>

definition dt_add :: "datetime \<Rightarrow> int \<Rightarrow> int \<Rightarrow> py_error + datetime" where
  "dt_add dt d s =
     (let total = dt_hour dt * 3600 + dt_minute dt * 60 + dt_second dt + s;
          day = dt_ordinal dt + d + total div 86400;
          sod = total mod 86400
      in if 0 < day \<and> day \<le> MAXORDINAL
         then Inr (dt\<lparr>dt_ordinal := day, dt_hour := sod div 3600,
                       dt_minute := sod mod 3600 div 60, dt_second := sod mod 60,
                       dt_fold := 0\<rparr>)
         else Inl OverflowError)"

text \<open>\<^verbatim>\<open>int(dt.timestamp())\<close> for a datetime whose microseconds are zero: the
  wall-clock reading less the offset that the zone has at that reading and fold.\<close>

definition timestamp :: "datetime \<Rightarrow> int" where
  "timestamp dt = local_timestamp dt - utcoffset dt"

text \<open>
  The zone \<^verbatim>\<open>UTC\<close> and the constructor
  \<^verbatim>\<open>datetime(year, month, day, hour, minute, second, tzinfo=UTC)\<close>, by which a point
  in time is named in calendar terms. The ordinal of a date is \<^verbatim>\<open>_ymd2ord\<close> of the
  \<^verbatim>\<open>datetime\<close> module.
\<close>

definition UTC :: zone where
  "UTC = \<lparr>z_before = 0, z_transitions = []\<rparr>"

definition is_leap :: "int \<Rightarrow> bool" where
  "is_leap year \<longleftrightarrow> year mod 4 = 0 \<and> (year mod 100 \<noteq> 0 \<or> year mod 400 = 0)"

definition days_before_year :: "int \<Rightarrow> int" where
  "days_before_year year =
     (let y = year - 1 in y * 365 + y div 4 - y div 100 + y div 400)"

definition days_before_month :: "int \<Rightarrow> int \<Rightarrow> int" where
  "days_before_month year month =
     [0, 31, 59, 90, 120, 151, 181, 212, 243, 273, 304, 334] ! nat (month - 1)
       + (if month > 2 \<and> is_leap year then 1 else 0)"

definition ymd2ord :: "int \<Rightarrow> int \<Rightarrow> int \<Rightarrow> int" where
  "ymd2ord year month day = days_before_year year + days_before_month year month + day"

definition utc_datetime :: "int \<Rightarrow> int \<Rightarrow> int \<Rightarrow> int \<Rightarrow> int \<Rightarrow> int \<Rightarrow> datetime" where
  "utc_datetime year month day h m s =
     \<lparr>dt_ordinal = ymd2ord year month day, dt_hour = h, dt_minute = m, dt_second = s,
      dt_microsecond = 0, dt_fold = 0, dt_tzinfo = UTC\<rparr>"


subsection \<open>Resolution: \<^verbatim>\<open>parse_time_with_timezone\<close>\<close>

text \<open>\<^verbatim>\<open>hour, minute = s.split(':')\<close> followed by the two calls of \<^verbatim>\<open>int\<close>;
  \<^term>\<open>None\<close> is the \<^verbatim>\<open>ValueError\<close> of the unpacking or of \<^verbatim>\<open>int\<close>.\<close>

definition split_hour_minute :: "string \<Rightarrow> (int \<times> int) option" where
  "split_hour_minute s =
     (case py_split CHR '':'' s of
        [h, m] \<Rightarrow> (case py_int h of None \<Rightarrow> None
                   | Some hour \<Rightarrow> (case py_int m of None \<Rightarrow> None
                   | Some minute \<Rightarrow> Some (hour, minute)))
      | _ \<Rightarrow> None)"

text \<open>The part of \<^verbatim>\<open>parse_time_with_timezone\<close> that reads the time string (from
  \<^verbatim>\<open>time_str_lower = time_str.lower().strip()\<close> to the end of the conversion to the
  24-hour clock). \<^term>\<open>None\<close> is one of its \<^verbatim>\<open>return None\<close>.\<close>

definition parse_clock :: "string \<Rightarrow> (int \<times> int) option" where
  "parse_clock time_str =
     (let time_str_lower = py_strip (py_lower time_str) in
      if \<not> str_contains time_str_lower ''am'' \<and> \<not> str_contains time_str_lower ''pm'' then
        (if CHR '':'' \<in> set time_str_lower then split_hour_minute time_str_lower else None)
      else
        (let time_str_lower = remove_spaces time_str_lower in
         case (if CHR '':'' \<in> set time_str_lower
               then split_hour_minute (py_rstrip ''apm'' time_str_lower)
               else map_option (\<lambda>hour. (hour, 0)) (py_int (py_rstrip ''apm'' time_str_lower)))
         of
           None \<Rightarrow> None
         | Some (hour, minute) \<Rightarrow>
             if str_contains time_str_lower ''pm'' \<and> hour \<noteq> 12 then Some (hour + 12, minute)
             else if str_contains time_str_lower ''am'' \<and> hour = 12 then Some (0, minute)
             else Some (hour, minute)))"

definition RATE_LIMIT_BUFFER_SECONDS :: int where
  "RATE_LIMIT_BUFFER_SECONDS = 60"

text \<open>
  \<^verbatim>\<open>parse_time_with_timezone(time_str, tz_str)\<close>. The parameter \<open>zones\<close> is
  \<^verbatim>\<open>ZoneInfo\<close>: the zone with that key, or \<^term>\<open>None\<close> where
  \<^verbatim>\<open>ZoneInfo\<close> raises. The parameter \<open>clock\<close> is the reading of the system clock.
  The result is \<^term>\<open>Inr None\<close> for \<^verbatim>\<open>return None\<close>, \<^term>\<open>Inl e\<close> for an exception
  that leaves the function, and otherwise the epoch, the reset time (which the source
  renders with \<^verbatim>\<open>strftime\<close>) and the zone key.
\<close>

definition parse_time_with_timezone ::
  "(string \<Rightarrow> zone option) \<Rightarrow> int \<Rightarrow> string \<Rightarrow> string \<Rightarrow>
     py_error + (int \<times> datetime \<times> string) option" where
  "parse_time_with_timezone zones clock time_str tz_str =
     (case zones tz_str of
        None \<Rightarrow> Inr None
      | Some tz \<Rightarrow>
          (let now = datetime_now tz clock in
           case parse_clock time_str of
             None \<Rightarrow> Inr None
           | Some (hour, minute) \<Rightarrow>
               (case dt_replace now hour minute of
                  Inl e \<Rightarrow> Inl e
                | Inr reset_time \<Rightarrow>
                    (case (if dt_le reset_time now then dt_add reset_time 1 0
                           else Inr reset_time) of
                       Inl e \<Rightarrow> Inl e
                     | Inr reset_time \<Rightarrow>
                         (case dt_add reset_time 0 RATE_LIMIT_BUFFER_SECONDS of
                            Inl e \<Rightarrow> Inl e
                          | Inr reset_time \<Rightarrow>
                              Inr (Some (timestamp reset_time, reset_time, tz_str)))))))"

subsection \<open>The component: \<^verbatim>\<open>main\<close>\<close>

text \<open>The three outcomes of the Resolver. In the source they are the exit codes 1, 2
  and 0 of \<^verbatim>\<open>main\<close>, the last with the three printed lines.\<close>

datatype signal = NotDetected | DetectedUnparseable | DetectedResolved int datetime string

text \<open>\<^verbatim>\<open>main\<close> after the file has been read. \<^term>\<open>Inl e\<close> is an exception that
  nothing catches: the process ends with a traceback.\<close>

definition resolve :: "(string \<Rightarrow> zone option) \<Rightarrow> int \<Rightarrow> string \<Rightarrow> py_error + signal" where
  "resolve zones clock content =
     (case find_rate_limit_pattern content of
        ((time_str, tz_str), detected) \<Rightarrow>
          if \<not> detected then Inr NotDetected
          else (case (time_str, tz_str) of
                  (Some t, Some z) \<Rightarrow>
                    (case parse_time_with_timezone zones clock t z of
                       Inl e \<Rightarrow> Inl e
                     | Inr None \<Rightarrow> Inr DetectedUnparseable
                     | Inr (Some (epoch, human, tz)) \<Rightarrow> Inr (DetectedResolved epoch human tz))
                | _ \<Rightarrow> Inr DetectedUnparseable))"

section \<open>JSON\<close>

text \<open>
  \<^verbatim>\<open>json.loads\<close> with its default decoder. A decoded string is a list of code points
  (an escape \<^verbatim>\<open>\uXXXX\<close> can name any of them), a number is kept as the text of its
  literal, and an object as the list of its members in the order of the text, which has
  the keys of the \<^verbatim>\<open>dict\<close> that Python builds. The limits of the interpreter (the depth
  of recursion, the length of an integer literal) are not part of the model.
\<close>

datatype json =
    JNull
  | JBool bool
  | JNumber string
  | JString "nat list"
  | JArray "json list"
  | JObject "(nat list \<times> json) list"

text \<open>The result of a decoding function that runs on fuel: a value with the rest of the
  text, the \<^verbatim>\<open>JSONDecodeError\<close>, or no fuel left.\<close>

datatype 'a parsed = Parsed 'a | Invalid | NoFuel

text \<open>\<^verbatim>\<open>WHITESPACE = [ \t\n\r]*\<close>\<close>

definition is_json_ws :: "char \<Rightarrow> bool" where
  "is_json_ws c \<longleftrightarrow> c \<in> set [CHR 0x20, CHR 0x09, CHR 0x0A, CHR 0x0D]"

definition skip_ws :: "string \<Rightarrow> string" where
  "skip_ws s = dropWhile is_json_ws s"

text \<open>The table \<^verbatim>\<open>BACKSLASH\<close> of the one-letter escapes.\<close>

definition BACKSLASH :: "char \<Rightarrow> nat option" where
  "BACKSLASH esc =
     (if esc = CHR 0x22 then Some 0x22
      else if esc = CHR 0x5C then Some 0x5C
      else if esc = CHR ''/'' then Some 0x2F
      else if esc = CHR ''b'' then Some 0x08
      else if esc = CHR ''f'' then Some 0x0C
      else if esc = CHR ''n'' then Some 0x0A
      else if esc = CHR ''r'' then Some 0x0D
      else if esc = CHR ''t'' then Some 0x09
      else None)"

definition hex_val :: "char \<Rightarrow> nat option" where
  "hex_val c =
     (if c \<in> set ''0123456789'' then Some (length (takeWhile (\<lambda>d. d \<noteq> c) ''0123456789''))
      else if c \<in> set ''abcdef'' then Some (10 + length (takeWhile (\<lambda>d. d \<noteq> c) ''abcdef''))
      else if c \<in> set ''ABCDEF'' then Some (10 + length (takeWhile (\<lambda>d. d \<noteq> c) ''ABCDEF''))
      else None)"

text \<open>The four hexadecimal digits of an escape \<^verbatim>\<open>\uXXXX\<close>, at the front of the text after
  the \<^verbatim>\<open>u\<close>.\<close>

definition decode_uXXXX :: "string \<Rightarrow> nat option" where
  "decode_uXXXX s =
     (case s of
        a # b # c # d # _ \<Rightarrow>
          (case (hex_val a, hex_val b, hex_val c, hex_val d) of
             (Some x3, Some x2, Some x1, Some x0) \<Rightarrow> Some (((x3 * 16 + x2) * 16 + x1) * 16 + x0)
           | _ \<Rightarrow> None)
      | _ \<Rightarrow> None)"

text \<open>
  \<^verbatim>\<open>scanstring\<close> in strict mode, on the text after the opening quote, with the code
  points decoded so far. The result is the decoded string and the text after the closing
  quote; \<^term>\<open>None\<close> is the \<^verbatim>\<open>JSONDecodeError\<close> (no closing quote, a control
  character, a bad escape).
\<close>

function scanstring :: "string \<Rightarrow> nat list \<Rightarrow> (nat list \<times> string) option" where
  "scanstring [] chunks = None"
| "scanstring (c # cs) chunks =
     (if c = CHR 0x22 then Some (chunks, cs)
      else if c = CHR 0x5C then
        (case cs of
           [] \<Rightarrow> None
         | esc # cs' \<Rightarrow>
             if esc \<noteq> CHR ''u'' then
               (case BACKSLASH esc of
                  None \<Rightarrow> None
                | Some char \<Rightarrow> scanstring cs' (chunks @ [char]))
             else
               (case decode_uXXXX cs' of
                  None \<Rightarrow> None
                | Some uni \<Rightarrow>
                    if 0xD800 \<le> uni \<and> uni \<le> 0xDBFF \<and> prefix [CHR 0x5C, CHR ''u''] (drop 4 cs') then
                      (case decode_uXXXX (drop 6 cs') of
                         None \<Rightarrow> None
                       | Some uni2 \<Rightarrow>
                           if 0xDC00 \<le> uni2 \<and> uni2 \<le> 0xDFFF
                           then scanstring (drop 10 cs')
                                  (chunks @ [0x10000 + ((uni - 0xD800) * 1024 + (uni2 - 0xDC00))])
                           else scanstring (drop 4 cs') (chunks @ [uni]))
                    else scanstring (drop 4 cs') (chunks @ [uni])))
      else if (of_char c :: nat) < 0x20 then None
      else scanstring cs (chunks @ [of_char c]))"
  by pat_completeness auto
termination
  by (relation "measure (\<lambda>(s, chunks). length s)") auto

text \<open>\<^verbatim>\<open>NUMBER_RE = (-?(?:0|[1-9]\d*))(\.\d+)?([eE][-+]?\d+)?\<close>\<close>

definition NUMBER_RE :: regex where
  "NUMBER_RE = seqs
     [Opt (Atom (Ch CHR ''-'')),
      Alt (Atom (Ch CHR ''0'')) (Seq (Atom (OneOf ''123456789'')) (Rep Digit 0 None)),
      Opt (Seq (Atom (Ch CHR ''.'')) (Rep Digit 1 None)),
      Opt (seqs [Atom (OneOf ''eE''), Opt (Atom (OneOf ''-+'')), Rep Digit 1 None])]"

text \<open>
  \<^verbatim>\<open>scan_once\<close> with \<^verbatim>\<open>JSONArray\<close> and \<^verbatim>\<open>JSONObject\<close>. \<^term>\<open>json_array\<close> is the
  loop of \<^verbatim>\<open>JSONArray\<close>, entered at the first character of an element;
  \<^term>\<open>json_object\<close> is the loop of \<^verbatim>\<open>JSONObject\<close>, entered after the opening quote
  of a key. Every call costs one unit of fuel.
\<close>

fun json_value :: "nat \<Rightarrow> string \<Rightarrow> (json \<times> string) parsed"
  and json_array :: "nat \<Rightarrow> string \<Rightarrow> json list \<Rightarrow> (json list \<times> string) parsed"
  and json_object ::
    "nat \<Rightarrow> string \<Rightarrow> (nat list \<times> json) list \<Rightarrow> ((nat list \<times> json) list \<times> string) parsed"
where
  "json_value 0 s = NoFuel"
| "json_value (Suc n) s =
     (case s of
        [] \<Rightarrow> Invalid
      | nextchar # cs \<Rightarrow>
          if nextchar = CHR 0x22 then
            (case scanstring cs [] of
               None \<Rightarrow> Invalid
             | Some (str, rest) \<Rightarrow> Parsed (JString str, rest))
          else if nextchar = CHR ''{'' then
            (case skip_ws cs of
               [] \<Rightarrow> Invalid
             | c # rest \<Rightarrow>
                 if c = CHR ''}'' then Parsed (JObject [], rest)
                 else if c = CHR 0x22 then
                   (case json_object n rest [] of
                      Parsed (pairs, rest') \<Rightarrow> Parsed (JObject pairs, rest')
                    | Invalid \<Rightarrow> Invalid
                    | NoFuel \<Rightarrow> NoFuel)
                 else Invalid)
          else if nextchar = CHR ''['' then
            (case skip_ws cs of
               [] \<Rightarrow> Invalid
             | c # rest \<Rightarrow>
                 if c = CHR '']'' then Parsed (JArray [], rest)
                 else
                   (case json_array n (c # rest) [] of
                      Parsed (values, rest') \<Rightarrow> Parsed (JArray values, rest')
                    | Invalid \<Rightarrow> Invalid
                    | NoFuel \<Rightarrow> NoFuel))
          else if prefix ''null'' s then Parsed (JNull, drop 4 s)
          else if prefix ''true'' s then Parsed (JBool True, drop 4 s)
          else if prefix ''false'' s then Parsed (JBool False, drop 5 s)
          else
            (case rmatch False NUMBER_RE (s, []) of
               (rest, _) # _ \<Rightarrow> Parsed (JNumber (take (length s - length rest) s), rest)
             | [] \<Rightarrow>
                 if prefix ''NaN'' s then Parsed (JNumber ''NaN'', drop 3 s)
                 else if prefix ''Infinity'' s then Parsed (JNumber ''Infinity'', drop 8 s)
                 else if prefix ''-Infinity'' s then Parsed (JNumber ''-Infinity'', drop 9 s)
                 else Invalid))"
| "json_array 0 s values = NoFuel"
| "json_array (Suc n) s values =
     (case json_value n s of
        Invalid \<Rightarrow> Invalid
      | NoFuel \<Rightarrow> NoFuel
      | Parsed (v, rest) \<Rightarrow>
          (case skip_ws rest of
             [] \<Rightarrow> Invalid
           | nextchar # rest' \<Rightarrow>
               if nextchar = CHR '']'' then Parsed (values @ [v], rest')
               else if nextchar = CHR '','' then json_array n (skip_ws rest') (values @ [v])
               else Invalid))"
| "json_object 0 s pairs = NoFuel"
| "json_object (Suc n) s pairs =
     (case scanstring s [] of
        None \<Rightarrow> Invalid
      | Some (key, rest) \<Rightarrow>
          (case skip_ws rest of
             [] \<Rightarrow> Invalid
           | colon # rest1 \<Rightarrow>
               if colon \<noteq> CHR '':'' then Invalid
               else
                 (case json_value n (skip_ws rest1) of
                    Invalid \<Rightarrow> Invalid
                  | NoFuel \<Rightarrow> NoFuel
                  | Parsed (v, rest2) \<Rightarrow>
                      (case skip_ws rest2 of
                         [] \<Rightarrow> Invalid
                       | nextchar # rest3 \<Rightarrow>
                           if nextchar = CHR ''}'' then Parsed (pairs @ [(key, v)], rest3)
                           else if nextchar = CHR '','' then
                             (case skip_ws rest3 of
                                [] \<Rightarrow> Invalid
                              | quote # rest4 \<Rightarrow>
                                  if quote = CHR 0x22
                                  then json_object n rest4 (pairs @ [(key, v)])
                                  else Invalid)
                           else Invalid))))"

text \<open>
  \<^verbatim>\<open>json.loads(s)\<close>: white space, one value, white space, and nothing more.
  \<^term>\<open>None\<close> is the \<^verbatim>\<open>JSONDecodeError\<close>. The fuel given is never used up (lemma
  \<open>json_value_fuel\<close> below).
\<close>

definition json_loads :: "string \<Rightarrow> json option" where
  "json_loads s =
     (case json_value (2 * length s + 2) (skip_ws s) of
        Parsed (obj, rest) \<Rightarrow> if skip_ws rest = [] then Some obj else None
      | Invalid \<Rightarrow> None
      | NoFuel \<Rightarrow> None)"

text \<open>
  \<^verbatim>\<open>json_type in parsed\<close>: a key of a \<^verbatim>\<open>dict\<close>, an element of a \<^verbatim>\<open>list\<close>, a
  substring of a \<^verbatim>\<open>str\<close>; on a number, a boolean or \<^verbatim>\<open>None\<close> it raises
  \<^verbatim>\<open>TypeError\<close>, which is the result \<^term>\<open>None\<close> here.
\<close>

definition code_points :: "string \<Rightarrow> nat list" where
  "code_points s = map of_char s"

fun json_in :: "string \<Rightarrow> json \<Rightarrow> bool option" where
  "json_in json_type (JObject pairs) = Some (code_points json_type \<in> fst ` set pairs)"
| "json_in json_type (JArray values) = Some (JString (code_points json_type) \<in> set values)"
| "json_in json_type (JString str) = Some (str_contains str (code_points json_type))"
| "json_in json_type (JNumber n) = None"
| "json_in json_type (JBool b) = None"
| "json_in json_type JNull = None"

section \<open>The Structured-Block Locator\<close>

text \<open>\<^verbatim>\<open>re.finditer(pattern, text)\<close> for a pattern that matches no empty text: the
  matches from left to right, each search starting where the last match ended.\<close>

function finditer :: "bool \<Rightarrow> regex \<Rightarrow> string \<Rightarrow> mstate list" where
  "finditer ic r s =
     (case re_search ic r s of
        None \<Rightarrow> []
      | Some m \<Rightarrow> m # (if length (fst m) < length s then finditer ic r (fst m) else []))"
  by pat_completeness auto
termination
  by (relation "measure (\<lambda>(ic, r, s). length s)") auto

text \<open>\<^verbatim>\<open>```json\s*(.*?)```\<close>, compiled with \<^verbatim>\<open>re.DOTALL\<close>.\<close>

definition code_block_pattern :: regex where
  "code_block_pattern =
     seqs [lit ''```json'', Rep Space 0 None, Group 1 (RepLazy AnyChar 0), lit ''```'']"

text \<open>Method 1, the loop over the fenced blocks. A block on which \<^verbatim>\<open>json.loads\<close> or
  the membership test raises is passed over, as the bare \<^verbatim>\<open>except\<close> does.\<close>

fun code_blocks :: "mstate list \<Rightarrow> string \<Rightarrow> string option" where
  "code_blocks [] json_type = None"
| "code_blocks (m # matches) json_type =
     (let block = py_strip (group m 1) in
      if str_contains block json_type then
        (case json_loads block of
           None \<Rightarrow> code_blocks matches json_type
         | Some parsed \<Rightarrow>
             (case json_in json_type parsed of
                Some True \<Rightarrow> Some block
              | _ \<Rightarrow> code_blocks matches json_type))
      else code_blocks matches json_type)"

text \<open>The loop \<^verbatim>\<open>while start > 0 and content[start] != '{': start -= 1\<close>.\<close>

fun opening_brace :: "string \<Rightarrow> nat \<Rightarrow> nat" where
  "opening_brace content 0 = 0"
| "opening_brace content (Suc start) =
     (if content ! Suc start \<noteq> CHR ''{'' then opening_brace content start else Suc start)"

text \<open>
  The loop \<^verbatim>\<open>for i, char in enumerate(content[start:], start)\<close> with its four
  variables; the result is \<^verbatim>\<open>depth\<close> and \<^verbatim>\<open>end\<close> when the loop is left, by
  \<^verbatim>\<open>break\<close> or at the end of the text.
\<close>

fun match_brackets :: "(nat \<times> char) list \<Rightarrow> int \<Rightarrow> bool \<Rightarrow> bool \<Rightarrow> nat \<Rightarrow> int \<times> nat" where
  "match_brackets [] depth in_string escape_next end = (depth, end)"
| "match_brackets ((i, char) # rest) depth in_string escape_next end =
     (if escape_next then match_brackets rest depth in_string False end
      else if char = CHR 0x5C \<and> in_string then match_brackets rest depth in_string True end
      else if char = CHR 0x22 \<and> \<not> escape_next
        then match_brackets rest depth (\<not> in_string) escape_next end
      else if in_string then match_brackets rest depth in_string escape_next end
      else if char = CHR ''{'' then match_brackets rest (depth + 1) in_string escape_next end
      else if char = CHR ''}'' then
        (if depth - 1 = 0 then (depth - 1, i + 1)
         else match_brackets rest (depth - 1) in_string escape_next end)
      else match_brackets rest depth in_string escape_next end)"

text \<open>
  \<^verbatim>\<open>find_json_containing(content, json_type)\<close>. \<^term>\<open>None\<close> is \<^verbatim>\<open>return None\<close>.
  The index \<open>start\<close> is a natural number: the test \<^verbatim>\<open>start < 0\<close> of the source is
  never true, the loop before it stops at 0. The reads \<^verbatim>\<open>content[start]\<close> are in
  range, \<open>start\<close> being at most the position of an occurrence of the quoted key.
\<close>

definition find_json_containing :: "string \<Rightarrow> string \<Rightarrow> string option" where
  "find_json_containing content json_type =
     (let search_key = [CHR 0x22] @ json_type @ [CHR 0x22] in
      case code_blocks (finditer False code_block_pattern content) json_type of
        Some block \<Rightarrow> Some block
      | None \<Rightarrow>
          (case str_find content search_key of
             None \<Rightarrow> None
           | Some key_pos \<Rightarrow>
               (let start = opening_brace content key_pos in
                if content ! start \<noteq> CHR ''{'' then None
                else
                  (case match_brackets (enumerate start (drop start content)) 0 False False start
                   of (depth, end) \<Rightarrow>
                     if depth \<noteq> 0 then None
                     else
                       (let candidate = take (end - start) (drop start content) in
                        case json_loads candidate of
                          None \<Rightarrow> None
                        | Some parsed \<Rightarrow>
                            (case json_in json_type parsed of
                               Some True \<Rightarrow> Some candidate
                             | _ \<Rightarrow> None))))))"

section \<open>Detection on texts of any code points\<close>

text \<open>
  The Resolver reads its file as UTF-8, so the code points of its text are not bounded
  by 255. In this section a text is a list of code points, and the detection is written
  out again for such texts. For a code point below 256 the character classes are those
  of section Texts. Above 255, \<^verbatim>\<open>\s\<close> and \<^verbatim>\<open>str.strip()\<close> take seventeen more
  characters for white space; \<^verbatim>\<open>\d\<close> takes the decimal digits of the Unicode
  database, which come in runs of ten (the table is that of Unicode 14.0, the database
  of Python 3.11); and under \<^verbatim>\<open>re.IGNORECASE\<close> a few letters of a pattern match a
  code point above 255 as well.
\<close>

definition uni_space_extra :: "nat list" where
  "uni_space_extra = [0x1680, 0x2000, 0x2001, 0x2002, 0x2003, 0x2004, 0x2005, 0x2006,
     0x2007, 0x2008, 0x2009, 0x200A, 0x2028, 0x2029, 0x202F, 0x205F, 0x3000]"

definition uni_is_space :: "nat \<Rightarrow> bool" where
  "uni_is_space c \<longleftrightarrow> (if c < 256 then is_space (char_of c) else c \<in> set uni_space_extra)"

text \<open>The code points above 255 of the digits zero.\<close>

definition digit_zeros :: "nat list" where
  "digit_zeros = [0x660, 0x6F0, 0x7C0, 0x966, 0x9E6, 0xA66, 0xAE6, 0xB66, 0xBE6, 0xC66,
     0xCE6, 0xD66, 0xDE6, 0xE50, 0xED0, 0xF20, 0x1040, 0x1090, 0x17E0, 0x1810, 0x1946,
     0x19D0, 0x1A80, 0x1A90, 0x1B50, 0x1BB0, 0x1C40, 0x1C50, 0xA620, 0xA8D0, 0xA900,
     0xA9D0, 0xA9F0, 0xAA50, 0xABF0, 0xFF10, 0x104A0, 0x10D30, 0x11066, 0x110F0, 0x11136,
     0x111D0, 0x112F0, 0x11450, 0x114D0, 0x11650, 0x116C0, 0x11730, 0x118E0, 0x11950,
     0x11C50, 0x11D50, 0x11DA0, 0x16A60, 0x16AC0, 0x16B50, 0x1D7CE, 0x1D7D8, 0x1D7E2,
     0x1D7EC, 0x1D7F6, 0x1E140, 0x1E2F0, 0x1E950, 0x1FBF0]"

definition uni_is_digit :: "nat \<Rightarrow> bool" where
  "uni_is_digit c \<longleftrightarrow>
     (if c < 256 then is_digit (char_of c)
      else list_ex (\<lambda>zero. zero \<le> c \<and> c < zero + 10) digit_zeros)"

text \<open>
  The code points above 255 that a literal character of a pattern matches under
  \<^verbatim>\<open>re.IGNORECASE\<close>: the dotted capital I and the dotless small i for \<^verbatim>\<open>i\<close>, the
  Kelvin sign for \<^verbatim>\<open>k\<close>, the long s for \<^verbatim>\<open>s\<close>, the Greek mu for the micro sign,
  the Angstrom sign for U+00E5, the capital sharp s for U+00DF, and the capital of
  U+00FF.
\<close>

definition ignorecase_extra :: "char \<Rightarrow> nat list" where
  "ignorecase_extra x =
     (case map_of [(CHR ''i'', [0x130, 0x131]), (CHR ''k'', [0x212A]), (CHR ''s'', [0x17F]),
                   (CHR 0xB5, [0x39C, 0x3BC]), (CHR 0xE5, [0x212B]), (CHR 0xDF, [0x1E9E]),
                   (CHR 0xFF, [0x178])] (lower_char x) of
        Some cs \<Rightarrow> cs
      | None \<Rightarrow> [])"

text \<open>A literal character of a pattern against a code point.\<close>

definition uni_ch_ok :: "bool \<Rightarrow> char \<Rightarrow> nat \<Rightarrow> bool" where
  "uni_ch_ok ic x c \<longleftrightarrow>
     (if c < 256 then atom_ok ic (Ch x) (char_of c) else ic \<and> c \<in> set (ignorecase_extra x))"

text \<open>Under \<^verbatim>\<open>re.IGNORECASE\<close> the class \<^verbatim>\<open>[A-Za-z]\<close> takes four code points above
  255.\<close>

fun uni_atom_ok :: "bool \<Rightarrow> atom \<Rightarrow> nat \<Rightarrow> bool" where
  "uni_atom_ok ic (Ch x) c = uni_ch_ok ic x c"
| "uni_atom_ok ic Digit c = uni_is_digit c"
| "uni_atom_ok ic Space c = uni_is_space c"
| "uni_atom_ok ic AnyChar c = True"
| "uni_atom_ok ic Alpha c =
     (if c < 256 then is_alpha (char_of c) else ic \<and> c \<in> set [0x130, 0x131, 0x17F, 0x212A])"
| "uni_atom_ok ic (NotCh x) c = (\<not> uni_ch_ok ic x c)"
| "uni_atom_ok ic (OneOf xs) c = list_ex (\<lambda>x. uni_ch_ok ic x c) xs"

text \<open>The matcher, the search and the detection are those of the sections above, on
  lists of code points.\<close>

type_synonym uni_mstate = "nat list \<times> (nat \<times> nat list) list"

fun uni_rmatch :: "bool \<Rightarrow> regex \<Rightarrow> uni_mstate \<Rightarrow> uni_mstate list" where
  "uni_rmatch ic (Atom a) (s, g) =
     (case s of [] \<Rightarrow> [] | c # cs \<Rightarrow> if uni_atom_ok ic a c then [(cs, g)] else [])"
| "uni_rmatch ic (Rep a lo hi) (s, g) =
     (let run = length (takeWhile (uni_atom_ok ic a) s);
          n = (case hi of None \<Rightarrow> run | Some h \<Rightarrow> min h run)
      in map (\<lambda>k. (drop k s, g)) (rev [lo..<Suc n]))"
| "uni_rmatch ic (RepLazy a lo) (s, g) =
     (let run = length (takeWhile (uni_atom_ok ic a) s)
      in map (\<lambda>k. (drop k s, g)) [lo..<Suc run])"
| "uni_rmatch ic (Opt r) st = uni_rmatch ic r st @ [st]"
| "uni_rmatch ic (Seq r1 r2) st = concat (map (uni_rmatch ic r2) (uni_rmatch ic r1 st))"
| "uni_rmatch ic (Alt r1 r2) st = uni_rmatch ic r1 st @ uni_rmatch ic r2 st"
| "uni_rmatch ic (Group i r) (s, g) =
     map (\<lambda>(s', g'). (s', (i, take (length s - length s') s) # g')) (uni_rmatch ic r (s, g))"

fun uni_re_search :: "bool \<Rightarrow> regex \<Rightarrow> nat list \<Rightarrow> uni_mstate option" where
  "uni_re_search ic r s =
     (case uni_rmatch ic r (s, []) of
        m # _ \<Rightarrow> Some m
      | [] \<Rightarrow> (case s of [] \<Rightarrow> None | _ # t \<Rightarrow> uni_re_search ic r t))"

definition uni_group :: "uni_mstate \<Rightarrow> nat \<Rightarrow> nat list" where
  "uni_group m i = (case map_of (snd m) i of Some t \<Rightarrow> t | None \<Rightarrow> [])"

definition uni_strip :: "nat list \<Rightarrow> nat list" where
  "uni_strip s = rev (dropWhile uni_is_space (rev (dropWhile uni_is_space s)))"

fun uni_try_patterns :: "regex list \<Rightarrow> nat list \<Rightarrow> (nat list \<times> nat list) option" where
  "uni_try_patterns [] content = None"
| "uni_try_patterns (pattern # rest) content =
     (case uni_re_search True pattern content of
        Some m \<Rightarrow> Some (uni_strip (uni_group m 1), uni_strip (uni_group m 2))
      | None \<Rightarrow> uni_try_patterns rest content)"

definition uni_find_rate_limit_pattern ::
  "nat list \<Rightarrow> (nat list option \<times> nat list option) \<times> bool" where
  "uni_find_rate_limit_pattern content =
     (case uni_try_patterns [pattern2, pattern1, pattern3, pattern4] content of
        Some (t, z) \<Rightarrow> ((Some t, Some z), True)
      | None \<Rightarrow>
          if length content \<le> BARE_PATTERN_MAX_CONTENT_SIZE \<and>
             list_ex (\<lambda>bare_pattern. uni_re_search True bare_pattern content \<noteq> None)
               bare_patterns
          then ((None, None), True)
          else ((None, None), False))"



section \<open>Notions used in the proofs\<close>

text \<open>The equations of the search are applied by hand (lemmas \<open>re_search_Nil\<close> and
  \<open>re_search_Cons\<close>).\<close>

declare re_search.simps [simp del]

declare uni_re_search.simps [simp del]

text \<open>A state of the matcher as a state on code points.\<close>

definition latin_state :: "mstate \<Rightarrow> uni_mstate" where
  "latin_state st = (code_points (fst st), map (\<lambda>(i, t). (i, code_points t)) (snd st))"


text \<open>
  How a piece of text acts on the bracket-matching loop. A text is \<open>transparent\<close> when
  the loop, outside a string and at a positive depth, runs through it and is in the same
  state after it; it \<open>stays in the string\<close> when the loop, inside a string, is still
  inside after it; it \<open>closes the string\<close> when the loop, inside a string, is outside a
  string after it, at the same depth. An \<open>object text\<close> is a pair of braces around a
  transparent text.
\<close>

definition transparent :: "string \<Rightarrow> bool" where
  "transparent p \<longleftrightarrow>
     (\<forall>i depth e after. 0 < depth \<longrightarrow>
        match_brackets (enumerate i (p @ after)) depth False False e =
        match_brackets (enumerate (i + length p) after) depth False False e)"

definition stays_in_string :: "string \<Rightarrow> bool" where
  "stays_in_string p \<longleftrightarrow>
     (\<forall>i depth e after.
        match_brackets (enumerate i (p @ after)) depth True False e =
        match_brackets (enumerate (i + length p) after) depth True False e)"

definition closes_string :: "string \<Rightarrow> bool" where
  "closes_string p \<longleftrightarrow>
     (\<forall>i depth e after. 0 < depth \<longrightarrow>
        match_brackets (enumerate i (p @ after)) depth True False e =
        match_brackets (enumerate (i + length p) after) depth False False e)"

definition object_text :: "string \<Rightarrow> bool" where
  "object_text p \<longleftrightarrow> (\<exists>mid. p = CHR ''{'' # mid @ [CHR ''}''] \<and> transparent mid)"

text \<open>The atoms of a pattern: every character a match consumes is accepted by one of
  them.\<close>

fun atoms_of :: "regex \<Rightarrow> atom list" where
  "atoms_of (Atom a) = [a]"
| "atoms_of (Rep a lo hi) = [a]"
| "atoms_of (RepLazy a lo) = [a]"
| "atoms_of (Opt r) = atoms_of r"
| "atoms_of (Seq r1 r2) = atoms_of r1 @ atoms_of r2"
| "atoms_of (Alt r1 r2) = atoms_of r1 @ atoms_of r2"
| "atoms_of (Group i r) = atoms_of r"

text \<open>
  What the three decoding functions consume. A value takes a transparent text from the
  front of its input, an object text when the input starts with a brace; the loop of an
  array takes a transparent text; the loop of an object, entered inside the string of a
  key, takes a text that closes that string and stops before the closing brace.
\<close>

definition value_extent :: "string \<Rightarrow> string \<Rightarrow> bool" where
  "value_extent s rest \<longleftrightarrow>
     (\<exists>p. s = p @ rest \<and> transparent p \<and> (hd s = CHR ''{'' \<longrightarrow> object_text p))"

definition array_extent :: "string \<Rightarrow> string \<Rightarrow> bool" where
  "array_extent s rest \<longleftrightarrow> (\<exists>p. s = p @ rest \<and> transparent p)"

definition members_extent :: "string \<Rightarrow> string \<Rightarrow> bool" where
  "members_extent s rest \<longleftrightarrow> (\<exists>p. s = p @ CHR ''}'' # rest \<and> closes_string p)"

text \<open>The least number of characters a match of a pattern consumes.\<close>

fun min_len :: "regex \<Rightarrow> nat" where
  "min_len (Atom a) = 1"
| "min_len (Rep a lo hi) = lo"
| "min_len (RepLazy a lo) = lo"
| "min_len (Opt r) = 0"
| "min_len (Seq r1 r2) = min_len r1 + min_len r2"
| "min_len (Alt r1 r2) = min (min_len r1) (min_len r2)"
| "min_len (Group i r) = min_len r"

section \<open>Properties of the Rate-Limit Resolver\<close>

subsection \<open>An hour or a minute out of range\<close>

lemma find_resets_13pm:
  "find_rate_limit_pattern ''resets 13pm (UTC)'' = ((Some ''13pm'', Some ''UTC''), True)"
  by code_simp

lemma find_resets_9999:
  "find_rate_limit_pattern ''resets 99:99 (UTC)'' = ((Some ''99:99'', Some ''UTC''), True)"
  by code_simp

lemma parse_clock_13pm: "parse_clock ''13pm'' = Some (25, 0)"
  by code_simp

lemma parse_clock_9999: "parse_clock ''99:99'' = Some (99, 99)"
  by code_simp

text \<open>
  Claim C2 (the code departs from it). On the texts \<^verbatim>\<open>resets 13pm (UTC)\<close> and
  \<^verbatim>\<open>resets 99:99 (UTC)\<close> detection captures a time and a zone, the time string is read
  as hour 25 and as hour 99 with minute 99, and \<^verbatim>\<open>now.replace\<close>, which stands outside
  every \<^verbatim>\<open>try\<close> of the source, raises \<^verbatim>\<open>ValueError\<close>: at every reading of the
  clock the Resolver ends with that exception and returns none of its three outcomes.
\<close>

theorem out_of_range_time_raises:
  "resolve (\<lambda>z. if z = ''UTC'' then Some UTC else None) clock ''resets 13pm (UTC)'' =
     Inl ValueError \<and>
   resolve (\<lambda>z. if z = ''UTC'' then Some UTC else None) clock ''resets 99:99 (UTC)'' =
     Inl ValueError"
  unfolding resolve_def find_resets_13pm find_resets_9999
  by (simp add: parse_time_with_timezone_def parse_clock_13pm parse_clock_9999 dt_replace_def)

subsection \<open>The resolved epoch and the clock\<close>

text \<open>In a zone without transitions the epoch of a resolution is later than the reading
  of the clock.\<close>

lemma sod_split:
  "(y::int) div 3600 * 3600 + y mod 3600 div 60 * 60 + y mod 60 = y"
proof -
  have "y mod 3600 mod 60 = y mod 60"
    by (rule mod_mod_cancel) simp
  then have "y mod 3600 div 60 * 60 + y mod 60 = y mod 3600"
    using div_mult_mod_eq [of "y mod 3600" 60] by simp
  then show ?thesis
    using div_mult_mod_eq [of y 3600] by linarith
qed

lemma utcoffset_fixed:
  "z_transitions (dt_tzinfo dt) = [] \<Longrightarrow> utcoffset dt = z_before (dt_tzinfo dt)"
  unfolding utcoffset_def by simp

lemma timestamp_fixed:
  assumes "z_transitions (dt_tzinfo dt) = []"
  shows "timestamp dt =
           (dt_ordinal dt - EPOCH_ORDINAL) * 86400 + dt_hour dt * 3600 + dt_minute dt * 60
             + dt_second dt - z_before (dt_tzinfo dt)"
  unfolding timestamp_def utcoffset_fixed [OF assms] local_timestamp_def ..

lemma timestamp_dt_add:
  assumes "dt_add dt d s = Inr dt'" "z_transitions (dt_tzinfo dt) = []"
  shows "timestamp dt' = timestamp dt + d * 86400 + s"
proof -
  define total where "total = dt_hour dt * 3600 + dt_minute dt * 60 + dt_second dt + s"
  define q where "q = total div 86400"
  define sod where "sod = total mod 86400"
  have dt': "dt' = dt\<lparr>dt_ordinal := dt_ordinal dt + d + q, dt_hour := sod div 3600,
                   dt_minute := sod mod 3600 div 60, dt_second := sod mod 60, dt_fold := 0\<rparr>"
    using assms(1) unfolding dt_add_def total_def [symmetric] Let_def q_def sod_def
    by (simp split: if_splits)
  then have fixed: "z_transitions (dt_tzinfo dt') = []"
    using assms(2) by simp
  have "timestamp dt' =
      (dt_ordinal dt + d + q - EPOCH_ORDINAL) * 86400
        + (sod div 3600 * 3600 + sod mod 3600 div 60 * 60 + sod mod 60)
        - z_before (dt_tzinfo dt)"
    unfolding timestamp_fixed [OF fixed] unfolding dt' by simp
  then have 1: "timestamp dt' =
      (dt_ordinal dt + d + q - EPOCH_ORDINAL) * 86400 + sod - z_before (dt_tzinfo dt)"
    unfolding sod_split .
  have 2: "q * 86400 + sod = total"
    unfolding q_def sod_def by simp
  have 3: "timestamp dt =
      (dt_ordinal dt - EPOCH_ORDINAL) * 86400 + (total - s) - z_before (dt_tzinfo dt)"
    unfolding timestamp_fixed [OF assms(2)] total_def by simp
  from 1 2 3 show ?thesis
    by (simp add: algebra_simps)
qed

lemma dt_add_tzinfo:
  assumes "dt_add dt d s = Inr dt'"
  shows "dt_tzinfo dt' = dt_tzinfo dt"
  using assms unfolding dt_add_def Let_def by (auto split: if_splits)

lemma later_clock:
  fixes h m H M S U :: int
  assumes "0 \<le> M" "M \<le> 59" "0 \<le> S" "S \<le> 59" "0 \<le> U"
    and "\<not> (h < H \<or> (h = H \<and> (m < M \<or> (m = M \<and> (0 < S \<or> (0 = S \<and> 0 \<le> U))))))"
    and "0 \<le> m"
  shows "H * 3600 + M * 60 + S < h * 3600 + m * 60"
proof -
  from assms have "H < h \<or> (h = H \<and> M < m)" by auto
  then show ?thesis
  proof
    assume "H < h"
    then have "H * 3600 + 3600 \<le> h * 3600" by simp
    with assms show ?thesis by linarith
  next
    assume "h = H \<and> M < m"
    with assms show ?thesis by simp
  qed
qed

lemma candidate_future:
  assumes "z_transitions tz = []"
    and "dt_replace (datetime_now tz clock) h m = Inr cand"
  shows "clock div 1000000 <
           timestamp cand + (if dt_le cand (datetime_now tz clock) then 86400 else 0)"
proof -
  define off where "off = z_before tz"
  define x where "x = clock div 1000000 + off"
  define sod where "sod = x mod 86400"
  define H where "H = sod div 3600"
  define M where "M = sod mod 3600 div 60"
  define S where "S = sod mod 60"
  define U where "U = clock mod 1000000"
  define day where "day = EPOCH_ORDINAL + x div 86400"
  have now: "datetime_now tz clock = \<lparr>dt_ordinal = day, dt_hour = H, dt_minute = M,
      dt_second = S, dt_microsecond = U, dt_fold = 0, dt_tzinfo = tz\<rparr>"
    unfolding datetime_now_def assms(1) fromutc.simps off_def [symmetric] Let_def prod.case
      x_def [symmetric] sod_def [symmetric] H_def M_def S_def U_def day_def ..
  define r where "r = sod mod 3600"
  have "0 \<le> r" "r < 3600" "0 \<le> S" "S < 60" "0 \<le> U" "0 \<le> sod" "sod < 86400"
    unfolding r_def S_def U_def sod_def by simp_all
  moreover have "M * 60 + r mod 60 = r" "0 \<le> r mod 60" "r mod 60 < 60"
    unfolding M_def r_def by simp_all
  ultimately have b: "0 \<le> M" "M \<le> 59" "0 \<le> S" "S \<le> 59" "0 \<le> U" "0 \<le> sod" "sod < 86400"
    by linarith+
  have split: "H * 3600 + M * 60 + S = sod"
    unfolding H_def M_def S_def by (rule sod_split)
  have r: "0 \<le> h" "h \<le> 23" "0 \<le> m" "m \<le> 59"
    and c: "cand = \<lparr>dt_ordinal = day, dt_hour = h, dt_minute = m,
      dt_second = 0, dt_microsecond = 0, dt_fold = 0, dt_tzinfo = tz\<rparr>"
    using assms(2) unfolding dt_replace_def now by (auto split: if_splits)
  have "x div 86400 * 86400 + sod = x"
    unfolding sod_def by simp
  then have tn: "clock div 1000000 = (day - EPOCH_ORDINAL) * 86400 + sod - off"
    unfolding day_def x_def by simp
  have "z_transitions (dt_tzinfo cand) = []"
    unfolding c using assms(1) by simp
  from timestamp_fixed [OF this]
  have tc: "timestamp cand = (day - EPOCH_ORDINAL) * 86400 + (h * 3600 + m * 60) - off"
    unfolding c off_def by simp
  show ?thesis
  proof (cases "dt_le cand (datetime_now tz clock)")
    case True
    with tn tc b r show ?thesis by simp
  next
    case False
    then have "\<not> (h < H \<or> (h = H \<and> (m < M \<or> (m = M \<and> (0 < S \<or> (0 = S \<and> 0 \<le> U))))))"
      unfolding dt_le_def c now by simp
    from later_clock [OF b(1-5) this r(3)] split tn tc False show ?thesis by simp
  qed
qed

lemma dt_replace_tzinfo:
  assumes "dt_replace dt h m = Inr dt'"
  shows "dt_tzinfo dt' = dt_tzinfo dt"
  using assms unfolding dt_replace_def by (auto split: if_splits)

lemma datetime_now_tzinfo: "dt_tzinfo (datetime_now tz clock) = tz"
  unfolding datetime_now_def Let_def by (simp split: prod.splits)

lemma parse_time_resolved:
  assumes "parse_time_with_timezone zones clock time_str tz_str = Inr (Some (epoch, human, key))"
    and "zones tz_str = Some tz" "z_transitions tz = []"
  shows "\<exists>h m candidate.
           parse_clock time_str = Some (h, m) \<and>
           dt_replace (datetime_now tz clock) h m = Inr candidate \<and>
           epoch = timestamp candidate
                     + (if dt_le candidate (datetime_now tz clock) then 86400 else 0)
                     + RATE_LIMIT_BUFFER_SECONDS"
proof -
  note z = assms(2)
  from assms(1) z obtain h m where p: "parse_clock time_str = Some (h, m)"
    unfolding parse_time_with_timezone_def Let_def by (auto split: option.splits)
  from assms(1) z p obtain cand where c: "dt_replace (datetime_now tz clock) h m = Inr cand"
    unfolding parse_time_with_timezone_def Let_def by (auto split: sum.splits)
  let ?now = "datetime_now tz clock"
  from assms(1) z p c obtain r1 r2 where
    r1: "(if dt_le cand ?now then dt_add cand 1 0 else Inr cand) = Inr r1" and
    r2: "dt_add r1 0 RATE_LIMIT_BUFFER_SECONDS = Inr r2" and
    e: "epoch = timestamp r2"
    unfolding parse_time_with_timezone_def Let_def
    by (auto split: sum.splits)
  have fc: "z_transitions (dt_tzinfo cand) = []"
    using dt_replace_tzinfo [OF c] assms(3) by (simp add: datetime_now_tzinfo)
  have "dt_tzinfo r1 = dt_tzinfo cand"
    using r1 dt_add_tzinfo [of cand 1 0 r1] by (simp split: if_splits)
  with fc have f1: "z_transitions (dt_tzinfo r1) = []"
    by simp
  have "timestamp r1 = timestamp cand + (if dt_le cand ?now then 86400 else 0)"
    using r1 timestamp_dt_add [of cand 1 0 r1, OF _ fc] by (simp split: if_splits)
  with timestamp_dt_add [OF r2 f1] e p c show ?thesis by auto
qed

lemma parse_time_key:
  assumes "parse_time_with_timezone zones clock time_str tz_str = Inr (Some (epoch, human, key))"
  shows "tz_str = key"
  using assms unfolding parse_time_with_timezone_def Let_def
  by (auto split: option.splits sum.splits)

lemma fixed_zone_epoch_in_future:
  assumes "resolve zones clock content = Inr (DetectedResolved epoch human key)"
    and "zones key = Some tz" "z_transitions tz = []"
  shows "clock < epoch * 1000000"
proof -
  from assms(1) obtain t z where
    p: "parse_time_with_timezone zones clock t z = Inr (Some (epoch, human, key))"
    unfolding resolve_def
    by (auto split: prod.splits if_splits option.splits sum.splits)
  then have "z = key"
    by (rule parse_time_key)
  with p have "parse_time_with_timezone zones clock t key = Inr (Some (epoch, human, key))"
    by simp
  from parse_time_resolved [OF this assms(2,3)] obtain h m candidate where
    c: "dt_replace (datetime_now tz clock) h m = Inr candidate" and
    e: "epoch = timestamp candidate
                  + (if dt_le candidate (datetime_now tz clock) then 86400 else 0)
                  + RATE_LIMIT_BUFFER_SECONDS"
    by blast
  define secs where "secs = clock div 1000000"
  have "secs < epoch - 60"
    using candidate_future [OF assms(3) c] e
    unfolding RATE_LIMIT_BUFFER_SECONDS_def secs_def by simp
  moreover have "clock = secs * 1000000 + clock mod 1000000" "clock mod 1000000 < 1000000"
    unfolding secs_def by simp_all
  ultimately show "clock < epoch * 1000000"
    by linarith
qed

text \<open>
  The zone \<^verbatim>\<open>America/New_York\<close> in 2025: five hours behind UTC, four hours from
  2025-03-09 07:00 UTC, and five hours again from 2025-11-02 06:00 UTC, when the wall clock
  goes back from 02:00 to 01:00.
\<close>

lemma new_york_transitions:
  "timestamp (utc_datetime 2025 3 9 7 0 0) = 1741503600 \<and>
   timestamp (utc_datetime 2025 11 2 6 0 0) = 1762063200 \<and>
   timestamp (utc_datetime 2025 11 2 6 15 0) = 1762064100 \<and>
   timestamp (utc_datetime 2025 11 2 5 31 0) = 1762061460"
  by code_simp

lemma find_resets_130am:
  "find_rate_limit_pattern ''resets 1:30am (America/New_York)'' =
     ((Some ''1:30am'', Some ''America/New_York''), True)"
  by code_simp

lemma parse_clock_130am: "parse_clock ''1:30am'' = Some (1, 30)"
  by code_simp

text \<open>
  Claim C4 (the code departs from it). Let the clock read 2025-11-02 06:15:00 UTC, which
  is 01:15 in New York for the second time that night, and let the text be
  \<^verbatim>\<open>resets 1:30am (America/New_York)\<close>. The candidate 01:30 is later than now on the
  wall clock, so no day is added; \<^verbatim>\<open>replace\<close> keeps the fold 1 of \<^verbatim>\<open>now\<close>, but adding
  the buffer sets the fold to 0, and 01:31 with fold 0 is the first 01:31 of that night,
  05:31 UTC. The Resolver returns \<open>DetectedResolved\<close> with the epoch 1762061460, which is
  2640 seconds before the reading 1762064100 of the clock.
\<close>

theorem reset_epoch_in_the_past:
  "resolve
     (map_of [(''America/New_York'',
        \<lparr>z_before = - 18000,
         z_transitions = [(1741503600, - 14400), (1762063200, - 18000)]\<rparr>)])
     (1762064100 * 1000000) ''resets 1:30am (America/New_York)'' =
   Inr (DetectedResolved 1762061460
     \<lparr>dt_ordinal = 739557, dt_hour = 1, dt_minute = 31, dt_second = 0, dt_microsecond = 0,
      dt_fold = 0,
      dt_tzinfo = \<lparr>z_before = - 18000,
         z_transitions = [(1741503600, - 14400), (1762063200, - 18000)]\<rparr>\<rparr>
     ''America/New_York'') \<and>
   (1762061460 :: int) * 1000000 < 1762064100 * 1000000"
  unfolding resolve_def find_resets_130am
  by (simp add: parse_time_with_timezone_def parse_clock_130am datetime_now_def dt_replace_def
      dt_le_def dt_add_def timestamp_def utcoffset_def local_timestamp_def EPOCH_ORDINAL_def
      MAXORDINAL_def RATE_LIMIT_BUFFER_SECONDS_def)

subsection \<open>Detection ignores case\<close>

lemma re_search_Nil:
  "re_search ic r [] = (case rmatch ic r ([], []) of m # _ \<Rightarrow> Some m | [] \<Rightarrow> None)"
  by (subst re_search.simps) (simp split: list.splits)

lemma re_search_Cons:
  "re_search ic r (c # s) =
     (case rmatch ic r (c # s, []) of m # _ \<Rightarrow> Some m | [] \<Rightarrow> re_search ic r s)"
  by (subst re_search.simps) (simp split: list.splits)


















text \<open>
  On a text whose code points are below 256 the detection of section
  \<open>Detection on texts of any code points\<close> is the detection of section
  \<open>The Rate-Limit Resolver\<close>.
\<close>

lemma uni_atom_ok_latin: "uni_atom_ok ic a (of_char c) = atom_ok ic a c"
  by (cases a) (auto simp: uni_ch_ok_def uni_is_digit_def uni_is_space_def list_ex_iff)

lemma uni_run_latin:
  "length (takeWhile (uni_atom_ok ic a) (code_points s)) = length (takeWhile (atom_ok ic a) s)"
proof -
  have "uni_atom_ok ic a \<circ> of_char = atom_ok ic a"
    by (rule ext) (simp add: uni_atom_ok_latin)
  then show ?thesis
    unfolding code_points_def by (simp add: takeWhile_map)
qed

lemma uni_rmatch_latin:
  "uni_rmatch ic r (latin_state st) = map latin_state (rmatch ic r st)"
proof (induction r arbitrary: st)
  case (Atom a)
  show ?case
    by (cases st; cases "fst st")
      (auto simp: latin_state_def code_points_def uni_atom_ok_latin)
next
  case (Rep a lo hi)
  show ?case
    by (cases st)
      (simp add: latin_state_def uni_run_latin Let_def, simp add: code_points_def drop_map)
next
  case (RepLazy a lo)
  show ?case
    by (cases st)
      (simp add: latin_state_def uni_run_latin Let_def, simp add: code_points_def drop_map)
next
  case (Opt r)
  then show ?case by simp
next
  case (Seq r1 r2)
  then show ?case by (simp add: map_concat comp_def)
next
  case (Alt r1 r2)
  then show ?case by simp
next
  case (Group i r)
  have "uni_rmatch ic (Group i r) (latin_state st) =
        map (\<lambda>(s', g'). (s', (i, take (length (fst st) - length s') (code_points (fst st))) # g'))
          (uni_rmatch ic r (latin_state st))"
    by (cases st) (simp add: latin_state_def code_points_def)
  also have "\<dots> = map latin_state (rmatch ic (Group i r) st)"
    unfolding Group.IH
    by (cases st) (auto simp: latin_state_def code_points_def take_map)
  finally show ?case .
qed

lemma uni_re_search_Nil:
  "uni_re_search ic r [] = (case uni_rmatch ic r ([], []) of m # _ \<Rightarrow> Some m | [] \<Rightarrow> None)"
  by (subst uni_re_search.simps) (simp split: list.splits)

lemma uni_re_search_Cons:
  "uni_re_search ic r (c # s) =
     (case uni_rmatch ic r (c # s, []) of m # _ \<Rightarrow> Some m | [] \<Rightarrow> uni_re_search ic r s)"
  by (subst uni_re_search.simps) (simp split: list.splits)

lemma uni_re_search_latin:
  "uni_re_search ic r (code_points s) = map_option latin_state (re_search ic r s)"
proof (induction s)
  case Nil
  have "uni_rmatch ic r (latin_state ([], [])) = map latin_state (rmatch ic r ([], []))"
    by (rule uni_rmatch_latin)
  then have "uni_rmatch ic r ([], []) = map latin_state (rmatch ic r ([], []))"
    by (simp add: latin_state_def code_points_def)
  then show ?case
    unfolding code_points_def list.map uni_re_search_Nil re_search_Nil
    by (cases "rmatch ic r ([], [])") auto
next
  case (Cons c s)
  have "uni_rmatch ic r (latin_state (c # s, [])) = map latin_state (rmatch ic r (c # s, []))"
    by (rule uni_rmatch_latin)
  then have m: "uni_rmatch ic r (of_char c # code_points s, []) =
      map latin_state (rmatch ic r (c # s, []))"
    by (simp add: latin_state_def code_points_def)
  have "uni_re_search ic r (of_char c # code_points s) =
      map_option latin_state (re_search ic r (c # s))"
    unfolding uni_re_search_Cons re_search_Cons m using Cons.IH
    by (cases "rmatch ic r (c # s, [])") auto
  then show ?case
    by (simp add: code_points_def)
qed

lemma uni_group_latin: "uni_group (latin_state m) i = code_points (group m i)"
proof -
  have "map_of (map (\<lambda>(i, t). (i, code_points t)) g) i = map_option code_points (map_of g i)"
    for g :: "(nat \<times> string) list"
    by (induction g) auto
  then show ?thesis
    unfolding uni_group_def group_def latin_state_def
    by (simp add: code_points_def split: option.splits)
qed

lemma uni_strip_latin: "uni_strip (code_points s) = code_points (py_strip s)"
proof -
  have "uni_is_space \<circ> of_char = is_space"
    by (rule ext) (simp add: uni_is_space_def)
  then show ?thesis
    unfolding uni_strip_def py_strip_def code_points_def
    by (simp add: dropWhile_map rev_map)
qed

lemma uni_try_patterns_latin:
  "uni_try_patterns ps (code_points s) =
     map_option (\<lambda>(t, z). (code_points t, code_points z)) (try_patterns ps s)"
  by (induction ps)
    (simp_all add: uni_re_search_latin uni_group_latin uni_strip_latin split: option.splits)

lemma uni_find_rate_limit_pattern_latin:
  "uni_find_rate_limit_pattern (code_points s) =
     (case find_rate_limit_pattern s of
        ((t, z), detected) \<Rightarrow> ((map_option code_points t, map_option code_points z), detected))"
proof -
  have "length (code_points s) = length s"
    by (simp add: code_points_def)
  then show ?thesis
    unfolding uni_find_rate_limit_pattern_def find_rate_limit_pattern_def uni_try_patterns_latin
    by (simp add: uni_re_search_latin list_ex_iff split: option.splits)
qed


subsection \<open>The bare phrases\<close>

lemma rmatch_lit:
  "w \<noteq> [] \<Longrightarrow> rmatch True (lit w) (s, g) =
     (if prefix (py_lower w) (py_lower s) then [(drop (length w) s, g)] else [])"
proof (induction w arbitrary: s rule: lit.induct)
  case 1
  then show ?case by simp
next
  case (2 c)
  show ?case
    by (cases s) (auto simp: py_lower_def)
next
  case (3 c c' cs)
  show ?case
    using 3 by (cases s) (auto simp: py_lower_def)
qed

lemma re_search_None:
  "re_search ic r s = None \<longleftrightarrow> (\<forall>t. suffix t s \<longrightarrow> rmatch ic r (t, []) = [])"
proof (induction s)
  case Nil
  show ?case
    by (simp add: re_search_Nil split: list.splits)
next
  case (Cons c s)
  show ?case
    unfolding re_search_Cons
    by (cases "rmatch ic r (c # s, [])") (auto simp: Cons.IH suffix_Cons)
qed

lemma sublist_lower:
  "sublist w (py_lower s) \<longleftrightarrow> (\<exists>t. suffix t s \<and> prefix w (py_lower t))"
proof
  assume "sublist w (py_lower s)"
  then obtain ps ss where e: "py_lower s = ps @ w @ ss"
    unfolding sublist_def by blast
  then have "py_lower (drop (length ps) s) = w @ ss"
    unfolding py_lower_def by (simp add: drop_map [symmetric])
  then have "prefix w (py_lower (drop (length ps) s))"
    by simp
  moreover have "suffix (drop (length ps) s) s"
    by (rule suffix_drop)
  ultimately show "\<exists>t. suffix t s \<and> prefix w (py_lower t)"
    by blast
next
  assume "\<exists>t. suffix t s \<and> prefix w (py_lower t)"
  then obtain t ps ss where "s = ps @ t" "py_lower t = w @ ss"
    unfolding suffix_def prefix_def by blast
  then have "py_lower s = py_lower ps @ w @ ss"
    by (simp add: py_lower_def)
  then show "sublist w (py_lower s)"
    unfolding sublist_def by blast
qed

lemma search_lit:
  assumes "w \<noteq> []" "py_lower w = w"
  shows "re_search True (lit w) s \<noteq> None \<longleftrightarrow> sublist w (py_lower s)"
  unfolding re_search_None sublist_lower using assms
  by (auto simp: rmatch_lit)


lemma prefix_append_drop:
  "prefix (a @ b) xs \<longleftrightarrow> prefix a xs \<and> prefix b (drop (length a) xs)"
proof
  assume "prefix (a @ b) xs"
  then obtain r where "xs = a @ b @ r" unfolding prefix_def by auto
  then show "prefix a xs \<and> prefix b (drop (length a) xs)" by simp
next
  assume h: "prefix a xs \<and> prefix b (drop (length a) xs)"
  then obtain r where "xs = a @ r" unfolding prefix_def by blast
  with h show "prefix (a @ b) xs" by simp
qed

lemma prefix_lower_append:
  "prefix (py_lower a @ b) (py_lower s) \<longleftrightarrow>
     prefix (py_lower a) (py_lower s) \<and> prefix b (py_lower (drop (length a) s))"
  using prefix_append_drop [of "py_lower a" b "py_lower s"]
  by (simp add: py_lower_def drop_map)

lemma rmatch_opt_ch_lit:
  assumes "v \<noteq> []"
  shows "rmatch True (Seq (Opt (Atom (Ch x))) (lit v)) (s, g) \<noteq> [] \<longleftrightarrow>
           prefix (py_lower (x # v)) (py_lower s) \<or> prefix (py_lower v) (py_lower s)"
  using assms by (cases s) (auto simp: rmatch_lit py_lower_def)

lemma rmatch_bare_you:
  "rmatch True (seqs [lit ''you'', Opt (Atom (Ch (CHR 0x27))), lit ''ve hit your limit'']) (s, g) \<noteq> [] \<longleftrightarrow>
     prefix (''you'' @ [CHR 0x27] @ ''ve hit your limit'') (py_lower s) \<or>
     prefix ''youve hit your limit'' (py_lower s)"
proof -
  have low: "py_lower ''you'' = ''you''" "py_lower ''ve hit your limit'' = ''ve hit your limit''"
    "py_lower (CHR 0x27 # ''ve hit your limit'') = CHR 0x27 # ''ve hit your limit''"
    by code_simp+
  have step: "rmatch True (Seq (Opt (Atom (Ch (CHR 0x27)))) (lit ''ve hit your limit'')) (t, g) \<noteq> [] \<longleftrightarrow>
      prefix (CHR 0x27 # ''ve hit your limit'') (py_lower t) \<or>
      prefix ''ve hit your limit'' (py_lower t)" for t
    using rmatch_opt_ch_lit [of "''ve hit your limit''" "CHR 0x27" t g] low by simp
  have "rmatch True (seqs [lit ''you'', Opt (Atom (Ch (CHR 0x27))), lit ''ve hit your limit'']) (s, g) \<noteq> [] \<longleftrightarrow>
        prefix (py_lower ''you'') (py_lower s) \<and>
        rmatch True (Seq (Opt (Atom (Ch (CHR 0x27)))) (lit ''ve hit your limit''))
          (drop (length ''you'') s, g) \<noteq> []"
    using rmatch_lit [of "''you''" s g] by auto
  also have "\<dots> \<longleftrightarrow> prefix (py_lower ''you'') (py_lower s) \<and>
      (prefix (CHR 0x27 # ''ve hit your limit'') (py_lower (drop (length ''you'') s)) \<or>
       prefix ''ve hit your limit'' (py_lower (drop (length ''you'') s)))"
    by (simp only: step)
  also have "\<dots> \<longleftrightarrow> prefix (py_lower ''you'' @ CHR 0x27 # ''ve hit your limit'') (py_lower s) \<or>
      prefix (py_lower ''you'' @ ''ve hit your limit'') (py_lower s)"
    unfolding prefix_lower_append by blast
  finally show ?thesis
    unfolding low by simp
qed


lemma search_bare_you:
  "re_search True (seqs [lit ''you'', Opt (Atom (Ch (CHR 0x27))), lit ''ve hit your limit'']) s \<noteq> None \<longleftrightarrow>
     sublist (''you'' @ [CHR 0x27] @ ''ve hit your limit'') (py_lower s) \<or>
     sublist ''youve hit your limit'' (py_lower s)"
  unfolding re_search_None sublist_lower
  using rmatch_bare_you by blast

lemma bare_patterns_phrases:
  "(\<exists>bare_pattern \<in> set bare_patterns. re_search True bare_pattern s \<noteq> None) \<longleftrightarrow>
   (\<exists>phrase \<in> set [''you'' @ [CHR 0x27] @ ''ve hit your limit'', ''youve hit your limit'',
                     ''rate limit exceeded'', ''rate limited'', ''too many requests''].
      sublist phrase (py_lower s))"
proof -
  have low: "py_lower ''rate limit exceeded'' = ''rate limit exceeded''"
    "py_lower ''rate limited'' = ''rate limited''"
    "py_lower ''too many requests'' = ''too many requests''"
    by code_simp+
  have a: "re_search True (lit ''rate limit exceeded'') s \<noteq> None \<longleftrightarrow>
          sublist ''rate limit exceeded'' (py_lower s)"
    by (rule search_lit) (simp_all add: low)
  have b: "re_search True (lit ''rate limited'') s \<noteq> None \<longleftrightarrow>
          sublist ''rate limited'' (py_lower s)"
    by (rule search_lit) (simp_all add: low)
  have c: "re_search True (lit ''too many requests'') s \<noteq> None \<longleftrightarrow>
          sublist ''too many requests'' (py_lower s)"
    by (rule search_lit) (simp_all add: low)
  show ?thesis
    unfolding bare_patterns_def
    using a b c search_bare_you [of s]
    by (auto simp del: lit.simps seqs.simps not_None_eq)
qed

text \<open>
  Claim C5, as the code has it. For a text that none of the four time-bearing patterns
  matches: the Resolver returns \<open>DetectedUnparseable\<close> when the text has at most 500
  characters and contains, in any case of letters, one of the phrases
  \<^verbatim>\<open>you've hit your limit\<close>, \<^verbatim>\<open>youve hit your limit\<close>, \<^verbatim>\<open>rate limit exceeded\<close>,
  \<^verbatim>\<open>rate limited\<close>, \<^verbatim>\<open>too many requests\<close>; it returns \<open>NotDetected\<close> otherwise, in
  particular for every text of more than 500 characters.
\<close>

theorem bare_phrases_short_content:
  assumes "\<forall>pattern \<in> set [pattern2, pattern1, pattern3, pattern4].
             re_search True pattern content = None"
  shows "resolve zones clock content =
           (if length content \<le> 500 \<and>
               (\<exists>phrase \<in> set [''you'' @ [CHR 0x27] @ ''ve hit your limit'',
                                 ''youve hit your limit'', ''rate limit exceeded'',
                                 ''rate limited'', ''too many requests''].
                  sublist phrase (py_lower content))
            then Inr DetectedUnparseable else Inr NotDetected)"
proof -
  from assms have "try_patterns [pattern2, pattern1, pattern3, pattern4] content = None"
    by simp
  then show ?thesis
    unfolding resolve_def find_rate_limit_pattern_def bare_patterns_phrases
      BARE_PATTERN_MAX_CONTENT_SIZE_def
    by simp
qed

lemma limit_text_no_time:
  "\<forall>pattern \<in> set [pattern2, pattern1, pattern3, pattern4].
     re_search True pattern (''You'' @ [CHR 0x27] @ ''ve hit your limit'') = None"
  by code_simp

lemma limit_text_phrase:
  "sublist (''you'' @ [CHR 0x27] @ ''ve hit your limit'')
     (py_lower (''You'' @ [CHR 0x27] @ ''ve hit your limit''))"
proof -
  have "py_lower (''You'' @ [CHR 0x27] @ ''ve hit your limit'') =
        ''you'' @ [CHR 0x27] @ ''ve hit your limit''"
    by code_simp
  then show ?thesis
    by (simp only: sublist_order.order_refl)
qed

theorem bare_phrases_short_content_witness:
  "re_search True pattern2 (''You'' @ [CHR 0x27] @ ''ve hit your limit'') = None \<and>
   re_search True pattern1 (''You'' @ [CHR 0x27] @ ''ve hit your limit'') = None \<and>
   re_search True pattern3 (''You'' @ [CHR 0x27] @ ''ve hit your limit'') = None \<and>
   re_search True pattern4 (''You'' @ [CHR 0x27] @ ''ve hit your limit'') = None \<and>
   resolve (map_of [(''UTC'', UTC)]) 0 (''You'' @ [CHR 0x27] @ ''ve hit your limit'') =
     Inr DetectedUnparseable"
  using bare_phrases_short_content [OF limit_text_no_time, of "map_of [(''UTC'', UTC)]" 0]
    limit_text_no_time limit_text_phrase
  by simp

text \<open>
  The phrase \<^verbatim>\<open>hit your limit\<close> alone is not among them: the text below has 14
  characters, contains that phrase, is matched by no time-bearing pattern, and is not
  detected.
\<close>

theorem hit_your_limit_not_detected:
  "re_search True pattern2 ''hit your limit'' = None \<and>
   re_search True pattern1 ''hit your limit'' = None \<and>
   re_search True pattern3 ''hit your limit'' = None \<and>
   re_search True pattern4 ''hit your limit'' = None \<and>
   length ''hit your limit'' \<le> 500 \<and>
   str_contains (py_lower ''hit your limit'') ''hit your limit'' \<and>
   resolve (map_of [(''UTC'', UTC)]) 0 ''hit your limit'' = Inr NotDetected"
  by code_simp

subsection \<open>From the 12-hour to the 24-hour clock\<close>

lemma digits_checked:
  "list_all (\<lambda>c. \<not> is_space c \<and> \<not> is_int_space c \<and> lower_char c = c \<and> c \<noteq> CHR '':'' \<and>
       c \<notin> set ''apm'' \<and> c \<noteq> CHR ''-'' \<and> c \<noteq> CHR ''+'' \<and> c \<noteq> CHR ''_'') ''0123456789''"
  by code_simp

lemma digit_props:
  assumes "is_digit c"
  shows "\<not> is_space c" "\<not> is_int_space c" "lower_char c = c" "c \<noteq> CHR '':''"
    "c \<notin> set ''apm''" "c \<noteq> CHR ''-''" "c \<noteq> CHR ''+''"
  using assms digits_checked unfolding is_digit_def list_all_iff by blast+

lemma spaces_checked:
  "list_all (\<lambda>c. lower_char c = c \<and> c \<noteq> CHR '':'')
     [CHR 0x09, CHR 0x0A, CHR 0x0B, CHR 0x0C, CHR 0x0D,
      CHR 0x1C, CHR 0x1D, CHR 0x1E, CHR 0x1F, CHR 0x20, CHR 0x85, CHR 0xA0]"
  by code_simp

lemma space_props:
  assumes "is_space c"
  shows "lower_char c = c" "c \<noteq> CHR '':''"
  using assms spaces_checked unfolding is_space_def list_all_iff by blast+

lemma py_lower_fixed: "\<forall>c\<in>set s. lower_char c = c \<Longrightarrow> py_lower s = s"
  unfolding py_lower_def by (induction s) auto

lemma py_strip_id:
  assumes "s \<noteq> []" "\<not> is_space (hd s)" "\<not> is_space (last s)"
  shows "py_strip s = s"
proof -
  from assms have "dropWhile is_space s = s"
    by (cases s) auto
  moreover from assms have "dropWhile is_space (rev s) = rev s"
    by (cases "rev s") (auto simp: last_rev [symmetric] simp del: last_rev)
  ultimately show ?thesis
    unfolding py_strip_def by simp
qed

lemma str_contains_sublist: "str_contains hay needle \<longleftrightarrow> sublist needle hay"
proof (induction hay)
  case Nil
  show ?case by simp
next
  case (Cons c hay)
  show ?case
    using Cons.IH by (subst str_contains.simps) (simp add: sublist_Cons_right)
qed

lemma py_rstrip_suffix:
  assumes "set v \<subseteq> set chars" "u \<noteq> []" "last u \<notin> set chars"
  shows "py_rstrip chars (u @ v) = u"
proof -
  have "dropWhile (\<lambda>c. c \<in> set chars) (rev v @ rev u) =
        dropWhile (\<lambda>c. c \<in> set chars) (rev u)"
    using assms(1) by (intro dropWhile_append2) auto
  also have "\<dots> = rev u"
    using assms(2,3) by (cases "rev u") (auto simp: last_rev [symmetric] simp del: last_rev)
  finally show ?thesis
    unfolding py_rstrip_def by simp
qed

lemma py_split_no_sep: "sep \<notin> set s \<Longrightarrow> py_split sep s = [s]"
  by (induction s) auto

lemma py_split_at: "sep \<notin> set u \<Longrightarrow> py_split sep (u @ sep # v) = u # py_split sep v"
  by (induction u) auto

lemma int_digits_all:
  assumes "\<forall>c\<in>set ds. is_digit c" "ds \<noteq> [] \<or> prev"
  shows "int_digits ds acc prev = Some (foldl (\<lambda>v c. 10 * v + digit_val c) acc ds)"
  using assms by (induction ds arbitrary: acc prev) auto

lemma py_int_digits:
  assumes "\<forall>c\<in>set ds. is_digit c" "ds \<noteq> []"
  shows "py_int ds = Some (foldl (\<lambda>v c. 10 * v + digit_val c) 0 ds)"
proof -
  obtain c cs where ds: "ds = c # cs"
    using assms(2) by (cases ds) auto
  have "is_digit (last ds)"
    using assms by simp
  then have "dropWhile is_int_space (rev ds) = rev ds"
    using assms(2) digit_props(2) [of "last ds"]
    by (cases "rev ds") (auto simp: last_rev [symmetric] simp del: last_rev)
  moreover have "dropWhile is_int_space ds = ds"
    using assms(1) digit_props(2) [of c] unfolding ds by simp
  ultimately have "rev (dropWhile is_int_space (rev (dropWhile is_int_space ds))) = ds"
    by simp
  moreover have "c \<noteq> CHR ''-''" "c \<noteq> CHR ''+''"
    using assms(1) digit_props(6,7) [of c] unfolding ds by simp_all
  ultimately show ?thesis
    unfolding py_int_def Let_def
    using int_digits_all [OF assms(1), of False 0] assms(2) by (simp add: ds)
qed


lemma marker_checked:
  "list_all (\<lambda>mk. (\<forall>c\<in>set mk. \<not> is_space c \<and> lower_char c = c \<and> c \<noteq> CHR '':'' \<and> c \<in> set ''apm'') \<and>
                    mk \<noteq> [] \<and> \<not> is_space (last mk)) [''am'', ''pm'']"
  by code_simp

lemma colon_checked: "\<not> is_space CHR '':'' \<and> lower_char CHR '':'' = CHR '':''"
  by code_simp

lemma sublist_at_end: "sublist m (u @ m)"
  unfolding sublist_def by (intro exI [of _ u] exI [of _ "[]"]) simp

text \<open>
  Claim C9. A captured time string with an am/pm marker has the shape of group 1 of the
  patterns: hour digits, an optional colon with two minute digits, optional white space,
  and the marker in any case. It is read as follows, \<open>h\<close> being the number the hour
  digits show: under \<^verbatim>\<open>am\<close> hour 12 becomes 0 and every other hour stays; under
  \<^verbatim>\<open>pm\<close> hour 12 stays 12 and every other hour gains 12. This holds for every \<open>h\<close>,
  so in particular for the hours 1 to 12 of the claim.
\<close>

theorem twelve_hour_conversion:
  assumes hs: "hs \<noteq> []" "\<forall>c\<in>set hs. is_digit c"
    and mp: "mp = [] \<or> (\<exists>d1 d2. mp = [CHR '':'', d1, d2] \<and> is_digit d1 \<and> is_digit d2)"
    and ws: "\<forall>c\<in>set ws. is_space c"
    and mk: "py_lower marker = ''am'' \<or> py_lower marker = ''pm''"
    and h: "h = foldl (\<lambda>v c. 10 * v + digit_val c) 0 hs"
  shows "parse_clock (hs @ mp @ ws @ marker) =
           Some (if py_lower marker = ''am'' then (if h = 12 then 0 else h)
                 else (if h = 12 then 12 else h + 12),
                 foldl (\<lambda>v c. 10 * v + digit_val c) 0 (tl mp))"
proof -
  define m where "m = py_lower marker"
  define body where "body = hs @ mp"
  have m: "m = ''am'' \<or> m = ''pm''"
    using mk unfolding m_def .
  have "(\<forall>c\<in>set m. \<not> is_space c \<and> lower_char c = c \<and> c \<noteq> CHR '':'' \<and> c \<in> set ''apm'') \<and>
        m \<noteq> [] \<and> \<not> is_space (last m)"
    using m marker_checked unfolding list_all_iff by fastforce
  then have mprops: "\<forall>c\<in>set m. \<not> is_space c \<and> lower_char c = c \<and> c \<noteq> CHR '':'' \<and> c \<in> set ''apm''"
    "m \<noteq> []" "\<not> is_space (last m)"
    by blast+
  have mp_chars: "\<forall>c\<in>set mp. \<not> is_space c \<and> lower_char c = c"
  proof (cases "mp = []")
    case True
    then show ?thesis by simp
  next
    case False
    with mp obtain d1 d2 where "mp = [CHR '':'', d1, d2]" "is_digit d1" "is_digit d2"
      by blast
    then show ?thesis
      using colon_checked digit_props(1,3) by simp
  qed
  have body_ne: "body \<noteq> []"
    using hs(1) unfolding body_def by simp
  have body_hd: "is_digit (hd body)"
    using hs unfolding body_def by (simp add: hd_append)
  have body_last: "is_digit (last body)"
  proof (cases "mp = []")
    case True
    then show ?thesis using hs unfolding body_def by simp
  next
    case False
    with mp obtain d1 d2 where "mp = [CHR '':'', d1, d2]" "is_digit d1" "is_digit d2"
      by blast
    then show ?thesis unfolding body_def by simp
  qed
  have body_chars: "\<forall>c\<in>set body. \<not> is_space c \<and> lower_char c = c"
    using hs(2) mp_chars digit_props(1,3) unfolding body_def by auto
  have "py_lower body = body" "py_lower ws = ws"
    using body_chars ws space_props(1) by (simp_all add: py_lower_fixed)
  then have low: "py_lower (hs @ mp @ ws @ marker) = body @ ws @ m"
    unfolding body_def m_def py_lower_def by simp
  have "hd (body @ ws @ m) = hd body" "last (body @ ws @ m) = last m"
    using body_ne mprops(2) by simp_all
  then have "py_strip (body @ ws @ m) = body @ ws @ m"
    using body_ne body_hd mprops(3) digit_props(1) [of "hd body"]
    by (intro py_strip_id) simp_all
  then have lowered: "py_strip (py_lower (hs @ mp @ ws @ marker)) = body @ ws @ m"
    unfolding low .
  have "sublist m (body @ ws @ m)"
    using sublist_at_end [of m "body @ ws"] by simp
  then have has_marker: "str_contains (body @ ws @ m) ''am'' \<or> str_contains (body @ ws @ m) ''pm''"
    unfolding str_contains_sublist using m by blast
  have "filter (\<lambda>c. \<not> is_space c) body = body" "filter (\<lambda>c. \<not> is_space c) ws = []"
    "filter (\<lambda>c. \<not> is_space c) m = m"
    using body_chars ws mprops(1) by (simp_all add: filter_id_conv filter_empty_conv)
  then have spaced: "remove_spaces (body @ ws @ m) = body @ m"
    unfolding remove_spaces_def by simp
  have "CHR '':'' \<notin> set hs" "CHR '':'' \<notin> set m"
    using hs(2) mprops(1) digit_props(4) by blast+
  moreover have "CHR '':'' \<in> set mp \<longleftrightarrow> mp \<noteq> []"
    using mp by auto
  ultimately have colon: "CHR '':'' \<in> set (body @ m) \<longleftrightarrow> mp \<noteq> []"
    unfolding body_def by simp
  have "set m \<subseteq> set ''apm''"
    using mprops(1) by blast
  then have stripped: "py_rstrip ''apm'' (body @ m) = body"
    using body_ne digit_props(5) [OF body_last]
    by (intro py_rstrip_suffix)
  have "\<forall>c\<in>set mp. c = CHR '':'' \<or> is_digit c"
    using mp by auto
  then have "\<forall>c\<in>set body. c = CHR '':'' \<or> is_digit c"
    using hs(2) unfolding body_def by auto
  then have p_notin: "CHR ''p'' \<notin> set body" "CHR ''a'' \<notin> set body"
    using digit_props(5) by fastforce+
  have pm: "str_contains (body @ m) ''pm'' \<longleftrightarrow> m = ''pm''"
  proof
    assume "str_contains (body @ m) ''pm''"
    then have "set ''pm'' \<subseteq> set (body @ m)"
      unfolding str_contains_sublist by (rule set_mono_sublist)
    then have "CHR ''p'' \<in> set m"
      using p_notin by simp
    with m show "m = ''pm''" by auto
  next
    assume "m = ''pm''"
    then show "str_contains (body @ m) ''pm''"
      unfolding str_contains_sublist using sublist_at_end [of m body] by simp
  qed
  have am: "str_contains (body @ m) ''am'' \<longleftrightarrow> m = ''am''"
  proof
    assume "str_contains (body @ m) ''am''"
    then have "set ''am'' \<subseteq> set (body @ m)"
      unfolding str_contains_sublist by (rule set_mono_sublist)
    then have "CHR ''a'' \<in> set m"
      using p_notin by simp
    with m show "m = ''am''" by auto
  next
    assume "m = ''am''"
    then show "str_contains (body @ m) ''am''"
      unfolding str_contains_sublist using sublist_at_end [of m body] by simp
  qed
  have hour: "py_int hs = Some h"
    unfolding h using hs by (intro py_int_digits)
  have read: "(if mp \<noteq> [] then split_hour_minute body
               else map_option (\<lambda>hour. (hour, 0)) (py_int body)) =
              Some (h, foldl (\<lambda>v c. 10 * v + digit_val c) 0 (tl mp))"
  proof (cases "mp = []")
    case True
    then show ?thesis
      using hour unfolding body_def by simp
  next
    case False
    with mp obtain d1 d2 where d: "mp = [CHR '':'', d1, d2]" "is_digit d1" "is_digit d2"
      by blast
    have n: "CHR '':'' \<notin> set hs" "CHR '':'' \<notin> set [d1, d2]"
      using hs(2) d(2,3) digit_props(4) by auto
    have "py_split CHR '':'' (hs @ CHR '':'' # [d1, d2]) = hs # py_split CHR '':'' [d1, d2]"
      using n(1) by (rule py_split_at)
    also have "py_split CHR '':'' [d1, d2] = [[d1, d2]]"
      using n(2) by (rule py_split_no_sep)
    finally have sp: "py_split CHR '':'' body = [hs, [d1, d2]]"
      unfolding body_def d(1) .
    have "py_int [d1, d2] = Some (foldl (\<lambda>v c. 10 * v + digit_val c) 0 [d1, d2])"
      using d(2,3) by (intro py_int_digits) auto
    then show ?thesis
      using hour False unfolding split_hour_minute_def sp d(1) by simp
  qed
  have am_pm: "m = ''am'' \<longleftrightarrow> m \<noteq> ''pm''"
    using m by auto
  have "parse_clock (hs @ mp @ ws @ marker) =
        (case (if mp \<noteq> [] then split_hour_minute body
               else map_option (\<lambda>hour. (hour, 0)) (py_int body)) of
           None \<Rightarrow> None
         | Some (hour, minute) \<Rightarrow>
             if m = ''pm'' \<and> hour \<noteq> 12 then Some (hour + 12, minute)
             else if m = ''am'' \<and> hour = 12 then Some (0, minute)
             else Some (hour, minute))"
  proof -
    have no_marker: "(\<not> str_contains (body @ ws @ m) ''am'' \<and>
        \<not> str_contains (body @ ws @ m) ''pm'') = False"
      using has_marker by blast
    show ?thesis
      unfolding parse_clock_def Let_def lowered spaced stripped colon pm am no_marker if_False ..
  qed
  also have "\<dots> = Some (if m = ''am'' then (if h = 12 then 0 else h)
                 else (if h = 12 then 12 else h + 12),
                 foldl (\<lambda>v c. 10 * v + digit_val c) 0 (tl mp))"
    unfolding read using m by auto
  finally show ?thesis
    unfolding m_def .
qed

theorem twelve_hour_conversion_witness:
  "parse_clock ''12:30 AM'' = Some (0, 30) \<and> parse_clock ''7pm'' = Some (19, 0)"
proof -
  have 1: "''12'' \<noteq> []" "''7'' \<noteq> []"
    by simp_all
  have 2: "\<forall>c\<in>set ''12''. is_digit c" "\<forall>c\<in>set ''7''. is_digit c"
    by (simp_all add: is_digit_def)
  have 3: "'':30'' = [] \<or> (\<exists>d1 d2. '':30'' = [CHR '':'', d1, d2] \<and> is_digit d1 \<and> is_digit d2)"
    "[] = [] \<or> (\<exists>d1 d2. [] = [CHR '':'', d1, d2] \<and> is_digit d1 \<and> is_digit d2)"
    by (simp_all add: is_digit_def)
  have 4: "\<forall>c\<in>set '' ''. is_space c" "\<forall>c\<in>set []. is_space c"
    by (simp_all add: is_space_def)
  have am: "py_lower ''AM'' = ''am''" and pm: "py_lower ''pm'' = ''pm''"
    by code_simp+
  have 5: "py_lower ''AM'' = ''am'' \<or> py_lower ''AM'' = ''pm''"
    "py_lower ''pm'' = ''am'' \<or> py_lower ''pm'' = ''pm''"
    using am pm by simp_all
  have 6: "(12::int) = foldl (\<lambda>v c. 10 * v + digit_val c) 0 ''12''"
    "(7::int) = foldl (\<lambda>v c. 10 * v + digit_val c) 0 ''7''"
    "foldl (\<lambda>v c. 10 * v + digit_val c) 0 (tl '':30'') = 30"
    by (simp_all add: digit_val_def)
  show ?thesis
    using twelve_hour_conversion [OF 1(1) 2(1) 3(1) 4(1) 5(1) 6(1)]
      twelve_hour_conversion [OF 1(2) 2(2) 3(2) 4(2) 5(2) 6(2)] am pm 6(3)
    by simp
qed

subsection \<open>Two worked resolutions\<close>
























section \<open>Properties of the Structured-Block Locator\<close>

subsection \<open>A fenced block that is not an object\<close>

text \<open>
  Claim C3 (the code departs from it). The fenced block \<^verbatim>\<open>["K"]\<close> mentions the marker
  key \<^verbatim>\<open>K\<close> and parses to a list that has the string \<^verbatim>\<open>K\<close> as an element, so the
  test \<^verbatim>\<open>json_type in parsed\<close> of the fenced-block pass holds and the Locator returns
  the block: a JSON array, not an object with the marker key.
\<close>

theorem fenced_array_returned:
  "find_json_containing ''```json [\"K\"] ```'' ''K'' = Some ''[\"K\"]'' \<and>
   json_loads ''[\"K\"]'' = Some (JArray [JString (code_points ''K'')])"
  by code_simp

text \<open>
  Claim C7 (the code departs from it). The text below holds a fenced block that parses to
  an object with the marker key, \<^verbatim>\<open>{"K":1}\<close>, and a bare object with the same key
  elsewhere. The Locator returns neither: it returns the fenced block \<^verbatim>\<open>["K"]\<close> that
  comes first, which is no object.
\<close>

theorem fenced_array_before_object:
  "find_json_containing ''```json [\"K\"] ``` ```json {\"K\":1} ``` {\"K\":2}'' ''K'' =
     Some ''[\"K\"]'' \<and>
   json_loads ''{\"K\":1}'' = Some (JObject [(code_points ''K'', JNumber ''1'')])"
  by code_simp

subsection \<open>The bracket-matching loop on pieces of JSON text\<close>

lemma transparent_Nil: "transparent []"
  by (simp add: transparent_def)

lemma transparent_append: "transparent a \<Longrightarrow> transparent b \<Longrightarrow> transparent (a @ b)"
  unfolding transparent_def by (simp add: add.assoc)

lemma transparent_char:
  "c \<noteq> CHR 0x22 \<Longrightarrow> c \<noteq> CHR ''{'' \<Longrightarrow> c \<noteq> CHR ''}'' \<Longrightarrow> transparent [c]"
  unfolding transparent_def by (simp add: enumerate_simps)

lemma transparent_Cons:
  "c \<noteq> CHR 0x22 \<Longrightarrow> c \<noteq> CHR ''{'' \<Longrightarrow> c \<noteq> CHR ''}'' \<Longrightarrow> transparent p \<Longrightarrow> transparent (c # p)"
  using transparent_append [OF transparent_char, of c p] by simp

lemma transparent_plain:
  "\<forall>c\<in>set p. c \<noteq> CHR 0x22 \<and> c \<noteq> CHR ''{'' \<and> c \<noteq> CHR ''}'' \<Longrightarrow> transparent p"
  by (induction p) (simp_all add: transparent_Nil transparent_Cons)

lemma object_text_transparent: "object_text p \<Longrightarrow> transparent p"
  unfolding object_text_def transparent_def
  by (auto simp: enumerate_simps add.assoc)

lemma stays_Nil: "stays_in_string []"
  by (simp add: stays_in_string_def)

lemma stays_append: "stays_in_string a \<Longrightarrow> stays_in_string b \<Longrightarrow> stays_in_string (a @ b)"
  unfolding stays_in_string_def by (simp add: add.assoc)

lemma stays_char: "c \<noteq> CHR 0x22 \<Longrightarrow> c \<noteq> CHR 0x5C \<Longrightarrow> stays_in_string [c]"
  unfolding stays_in_string_def by (simp add: enumerate_simps)

lemma stays_escape: "stays_in_string [CHR 0x5C, c]"
  unfolding stays_in_string_def by (simp add: enumerate_simps)

lemma stays_plain:
  "\<forall>c\<in>set p. c \<noteq> CHR 0x22 \<and> c \<noteq> CHR 0x5C \<Longrightarrow> stays_in_string p"
proof (induction p)
  case Nil
  show ?case by (rule stays_Nil)
next
  case (Cons c p)
  then have "stays_in_string ([c] @ p)"
    by (intro stays_append stays_char) simp_all
  then show ?case by simp
qed

lemma closes_quote: "closes_string [CHR 0x22]"
  unfolding closes_string_def by (simp add: enumerate_simps)

lemma stays_closes: "stays_in_string a \<Longrightarrow> closes_string b \<Longrightarrow> closes_string (a @ b)"
  unfolding stays_in_string_def closes_string_def by (simp add: add.assoc)

lemma closes_transparent: "closes_string a \<Longrightarrow> transparent b \<Longrightarrow> closes_string (a @ b)"
  unfolding transparent_def closes_string_def by (simp add: add.assoc)

lemma quote_closes: "closes_string p \<Longrightarrow> transparent (CHR 0x22 # p)"
  unfolding transparent_def closes_string_def by (simp add: enumerate_simps)

subsection \<open>What the decoder consumes\<close>

lemma hex_plain: "hex_val c = Some v \<Longrightarrow> c \<noteq> CHR 0x22 \<and> c \<noteq> CHR 0x5C"
  unfolding hex_val_def by (auto split: if_splits)

lemma decode_uXXXX_stays:
  assumes "decode_uXXXX s = Some u"
  shows "stays_in_string (take 4 s)"
proof -
  from assms obtain a b c d r where s: "s = a # b # c # d # r"
    unfolding decode_uXXXX_def by (auto split: list.splits)
  from assms obtain va vb vc vd where
    "hex_val a = Some va" "hex_val b = Some vb" "hex_val c = Some vc" "hex_val d = Some vd"
    unfolding decode_uXXXX_def s by (auto split: option.splits)
  then have "\<forall>x\<in>set [a, b, c, d]. x \<noteq> CHR 0x22 \<and> x \<noteq> CHR 0x5C"
    using hex_plain by auto
  then have "stays_in_string [a, b, c, d]"
    by (rule stays_plain)
  then show ?thesis
    unfolding s by simp
qed

lemma scanstring_closes:
  "scanstring s chunks = Some (str, rest) \<Longrightarrow> \<exists>p. s = p @ rest \<and> closes_string p"
proof (induction "length s" arbitrary: s chunks rule: less_induct)
  case less
  from less.prems obtain c cs where s: "s = c # cs"
    by (cases s) auto
  note IH = less.hyps
  note run = less.prems [unfolded s scanstring.simps]
  show ?case
  proof (cases "c = CHR 0x22")
    case True
    with run have "rest = cs" by simp
    with True closes_quote show ?thesis
      unfolding s by (intro exI [of _ "[CHR 0x22]"]) simp
  next
    case quote: False
    show ?thesis
    proof (cases "c = CHR 0x5C")
      case False
      with quote run have "scanstring cs (chunks @ [of_char c]) = Some (str, rest)"
        by (simp split: if_splits)
      moreover have "length cs < length s"
        unfolding s by simp
      ultimately obtain p where p: "cs = p @ rest" "closes_string p"
        using IH by blast
      from quote False have "stays_in_string [c]"
        by (rule stays_char)
      then have "closes_string ([c] @ p)"
        using p(2) by (rule stays_closes)
      with p(1) show ?thesis
        unfolding s by (intro exI [of _ "[c] @ p"]) simp
    next
      case True
      with run obtain esc cs' where cs: "cs = esc # cs'"
        by (cases cs) auto
      note run' = run [unfolded cs]
      show ?thesis
      proof (cases "esc = CHR ''u''")
        case False
        with True run' obtain char where
          "scanstring cs' (chunks @ [char]) = Some (str, rest)"
          by (auto split: option.splits)
        moreover have "length cs' < length s"
          unfolding s cs by simp
        ultimately obtain p where p: "cs' = p @ rest" "closes_string p"
          using IH by blast
        have "closes_string ([CHR 0x5C, esc] @ p)"
          using stays_escape p(2) by (rule stays_closes)
        with p(1) True show ?thesis
          unfolding s cs by (intro exI [of _ "[CHR 0x5C, esc] @ p"]) simp
      next
        case u: True
        with True run' obtain uni where uni: "decode_uXXXX cs' = Some uni"
          by (auto split: option.splits)
        have four: "stays_in_string (take 4 cs')"
          using uni by (rule decode_uXXXX_stays)
        consider
          (pair) uni2 where "prefix [CHR 0x5C, CHR ''u''] (drop 4 cs')"
            "decode_uXXXX (drop 6 cs') = Some uni2"
            "scanstring (drop 10 cs')
               (chunks @ [0x10000 + ((uni - 0xD800) * 1024 + (uni2 - 0xDC00))]) = Some (str, rest)"
          | (single) "scanstring (drop 4 cs') (chunks @ [uni]) = Some (str, rest)"
          using True u run' uni by (auto split: option.splits if_splits)
        then show ?thesis
        proof cases
          case single
          have "length (drop 4 cs') < length s"
            unfolding s cs by simp
          with single obtain p where p: "drop 4 cs' = p @ rest" "closes_string p"
            using IH by blast
          have "closes_string (([CHR 0x5C, CHR ''u''] @ take 4 cs') @ p)"
            using stays_escape four p(2) by (intro stays_closes stays_append)
          moreover have "cs' = take 4 cs' @ p @ rest"
            using append_take_drop_id [of 4 cs'] unfolding p(1) by simp
          then have "s = (([CHR 0x5C, CHR ''u''] @ take 4 cs') @ p) @ rest"
            unfolding s cs True u by simp
          ultimately show ?thesis by blast
        next
          case pair
          have "length (drop 10 cs') < length s"
            unfolding s cs by simp
          with pair(3) obtain p where p: "drop 10 cs' = p @ rest" "closes_string p"
            using IH by blast
          from pair(1) have two: "take 2 (drop 4 cs') = [CHR 0x5C, CHR ''u'']"
            unfolding prefix_def by auto
          have "stays_in_string (take 4 (drop 6 cs'))"
            using pair(2) by (rule decode_uXXXX_stays)
          with stays_escape [of "CHR ''u''"] four
          have "stays_in_string (take 4 cs' @ take 2 (drop 4 cs') @ take 4 (drop 6 cs'))"
            unfolding two by (intro stays_append)
          moreover have "take 4 cs' @ take 2 (drop 4 cs') @ take 4 (drop 6 cs') = take 10 cs'"
            using take_add [of 4 6 cs'] take_add [of 2 4 "drop 4 cs'"] by simp
          ultimately have "stays_in_string (take 10 cs')"
            by simp
          then have "closes_string (([CHR 0x5C, CHR ''u''] @ take 10 cs') @ p)"
            using stays_escape p(2) by (intro stays_closes stays_append)
          moreover have "cs' = take 10 cs' @ p @ rest"
            using append_take_drop_id [of 10 cs'] unfolding p(1) by simp
          then have "s = (([CHR 0x5C, CHR ''u''] @ take 10 cs') @ p) @ rest"
            unfolding s cs True u by simp
          ultimately show ?thesis by blast
        qed
      qed
    qed
  qed
qed

lemma take_run:
  assumes "k \<le> length (takeWhile P s)"
  shows "\<forall>c\<in>set (take k s). P c"
proof -
  have "take k s = take k (takeWhile P s @ dropWhile P s)"
    by simp
  also have "\<dots> = take k (takeWhile P s)"
    using assms by (simp del: takeWhile_dropWhile_id)
  finally have "set (take k s) \<subseteq> set (takeWhile P s)"
    by (simp add: set_take_subset)
  then show ?thesis
    by (auto dest: set_takeWhileD)
qed

lemma rmatch_consumed:
  "(s', g') \<in> set (rmatch ic r (s, g)) \<Longrightarrow>
     \<exists>p. s = p @ s' \<and> (\<forall>c\<in>set p. \<exists>a\<in>set (atoms_of r). atom_ok ic a c)"
proof (induction r arbitrary: s g s' g')
  case (Atom a)
  then show ?case
    by (cases s) (auto split: if_splits)
next
  case (Rep a lo hi)
  then obtain k where k: "s' = drop k s" "k \<le> length (takeWhile (atom_ok ic a) s)"
    by (auto simp: Let_def split: option.splits)
  have "s = take k s @ s'"
    unfolding k(1) by simp
  moreover have "\<forall>c\<in>set (take k s). atom_ok ic a c"
    using k(2) by (rule take_run)
  ultimately show ?case
    by (intro exI [of _ "take k s"]) simp
next
  case (RepLazy a lo)
  then obtain k where k: "s' = drop k s" "k \<le> length (takeWhile (atom_ok ic a) s)"
    by (auto simp: Let_def)
  have "s = take k s @ s'"
    unfolding k(1) by simp
  moreover have "\<forall>c\<in>set (take k s). atom_ok ic a c"
    using k(2) by (rule take_run)
  ultimately show ?case
    by (intro exI [of _ "take k s"]) simp
next
  case (Opt r)
  from Opt.prems consider "(s', g') \<in> set (rmatch ic r (s, g))" | "s' = s"
    by auto
  then show ?case
  proof cases
    case 1
    from Opt.IH [OF this] show ?thesis by simp
  next
    case 2
    then show ?thesis by simp
  qed
next
  case (Seq r1 r2)
  from Seq.prems obtain s1 g1 where
    1: "(s1, g1) \<in> set (rmatch ic r1 (s, g))" and 2: "(s', g') \<in> set (rmatch ic r2 (s1, g1))"
    by auto
  from Seq.IH(1) [OF 1] obtain p1 where
    p1: "s = p1 @ s1" "\<forall>c\<in>set p1. \<exists>a\<in>set (atoms_of r1). atom_ok ic a c"
    by blast
  from Seq.IH(2) [OF 2] obtain p2 where
    p2: "s1 = p2 @ s'" "\<forall>c\<in>set p2. \<exists>a\<in>set (atoms_of r2). atom_ok ic a c"
    by blast
  from p1 p2 show ?case
    by (intro exI [of _ "p1 @ p2"]) auto
next
  case (Alt r1 r2)
  from Alt.prems consider "(s', g') \<in> set (rmatch ic r1 (s, g))"
    | "(s', g') \<in> set (rmatch ic r2 (s, g))"
    by auto
  then show ?case
  proof cases
    case 1
    from Alt.IH(1) [OF this] show ?thesis by fastforce
  next
    case 2
    from Alt.IH(2) [OF this] show ?thesis by fastforce
  qed
next
  case (Group i r)
  from Group.prems obtain g0 where "(s', g0) \<in> set (rmatch ic r (s, g))"
    by auto
  from Group.IH [OF this] show ?case by simp
qed

lemma number_atoms_plain:
  "\<forall>a\<in>set (atoms_of NUMBER_RE). \<forall>c. atom_ok False a c \<longrightarrow>
     c \<noteq> CHR 0x22 \<and> c \<noteq> CHR ''{'' \<and> c \<noteq> CHR ''}''"
  by (auto simp: NUMBER_RE_def is_digit_def)

lemma number_consumed:
  assumes "rmatch False NUMBER_RE (s, []) = (rest, g) # ms"
  shows "\<exists>p. s = p @ rest \<and> transparent p"
proof -
  from assms have "(rest, g) \<in> set (rmatch False NUMBER_RE (s, []))"
    by simp
  from rmatch_consumed [OF this] obtain p where
    p: "s = p @ rest" "\<forall>c\<in>set p. \<exists>a\<in>set (atoms_of NUMBER_RE). atom_ok False a c"
    by blast
  from p(2) number_atoms_plain have "\<forall>c\<in>set p. c \<noteq> CHR 0x22 \<and> c \<noteq> CHR ''{'' \<and> c \<noteq> CHR ''}''"
    by blast
  then have "transparent p"
    by (rule transparent_plain)
  with p(1) show ?thesis by blast
qed

lemma json_ws_plain: "is_json_ws c \<Longrightarrow> c \<noteq> CHR 0x22 \<and> c \<noteq> CHR ''{'' \<and> c \<noteq> CHR ''}''"
  unfolding is_json_ws_def by auto

lemma skip_ws_decomp: "\<exists>w. s = w @ skip_ws s \<and> transparent w"
proof -
  have "\<forall>c\<in>set (takeWhile is_json_ws s). c \<noteq> CHR 0x22 \<and> c \<noteq> CHR ''{'' \<and> c \<noteq> CHR ''}''"
    using json_ws_plain by (auto dest: set_takeWhileD)
  then have "transparent (takeWhile is_json_ws s)"
    by (rule transparent_plain)
  moreover have "s = takeWhile is_json_ws s @ skip_ws s"
    unfolding skip_ws_def by simp
  ultimately show ?thesis by blast
qed

lemma prefix_plain:
  assumes "prefix w s" "\<forall>c\<in>set w. c \<noteq> CHR 0x22 \<and> c \<noteq> CHR ''{'' \<and> c \<noteq> CHR ''}''"
  shows "\<exists>p. s = p @ drop (length w) s \<and> transparent p"
proof -
  from assms(1) have "s = w @ drop (length w) s"
    unfolding prefix_def by auto
  moreover from assms(2) have "transparent w"
    by (rule transparent_plain)
  ultimately show ?thesis by blast
qed

lemma value_extentI:
  "s = p @ rest \<Longrightarrow> transparent p \<Longrightarrow> hd s \<noteq> CHR ''{'' \<Longrightarrow> value_extent s rest"
  unfolding value_extent_def by blast

lemma literal_extent:
  assumes "prefix w s" "hd s \<noteq> CHR ''{''" "length w = k"
    "\<forall>c\<in>set w. c \<noteq> CHR 0x22 \<and> c \<noteq> CHR ''{'' \<and> c \<noteq> CHR ''}''"
  shows "value_extent s (drop k s)"
  using prefix_plain [OF assms(1,4)] assms(2,3) unfolding value_extent_def by blast

lemma value_step:
  assumes IH2: "\<And>s values vs rest. json_array n s values = Parsed (vs, rest) \<Longrightarrow> array_extent s rest"
    and IH3: "\<And>s pairs ps rest. json_object n s pairs = Parsed (ps, rest) \<Longrightarrow> members_extent s rest"
    and run: "json_value (Suc n) s = Parsed (v, rest)"
  shows "value_extent s rest"
proof -
  from run obtain nextchar cs where s: "s = nextchar # cs"
    by (cases s) auto
  note run' = run [unfolded s json_value.simps list.case]
  consider (str) "nextchar = CHR 0x22" | (obj) "nextchar = CHR ''{''" | (arr) "nextchar = CHR ''[''"
    | (other) "nextchar \<noteq> CHR 0x22" "nextchar \<noteq> CHR ''{''" "nextchar \<noteq> CHR ''[''"
    by blast
  then show ?thesis
  proof cases
    case str
    with run' obtain str' where "scanstring cs [] = Some (str', rest)"
      by (auto split: option.splits)
    from scanstring_closes [OF this] obtain p where p: "cs = p @ rest" "closes_string p"
      by blast
    from p(2) have "transparent (CHR 0x22 # p)"
      by (rule quote_closes)
    moreover have "s = (CHR 0x22 # p) @ rest"
      unfolding s str p(1) by simp
    moreover have "hd s \<noteq> CHR ''{''"
      unfolding s str by simp
    ultimately show ?thesis
      unfolding value_extent_def by blast
  next
    case obj
    from run' obj obtain c r0 where sk: "skip_ws cs = c # r0"
      by (cases "skip_ws cs") auto
    from skip_ws_decomp [of cs] obtain w where w: "cs = w @ c # r0" "transparent w"
      unfolding sk by blast
    note run'' = run' [unfolded sk list.case]
    consider (empty) "c = CHR ''}''" | (members) "c \<noteq> CHR ''}''" "c = CHR 0x22"
      using run'' obj by (auto split: if_splits)
    then show ?thesis
    proof cases
      case empty
      with run'' obj have "rest = r0" by simp
      then have "s = (CHR ''{'' # w @ [CHR ''}'']) @ rest"
        unfolding s obj w(1) empty by simp
      moreover have "object_text (CHR ''{'' # w @ [CHR ''}''])"
        unfolding object_text_def using w(2) by blast
      ultimately show ?thesis
        unfolding value_extent_def using object_text_transparent by blast
    next
      case members
      with run'' obj obtain pairs where "json_object n r0 [] = Parsed (pairs, rest)"
        by (auto split: parsed.splits)
      from IH3 [OF this] obtain p where p: "r0 = p @ CHR ''}'' # rest" "closes_string p"
        unfolding members_extent_def by blast
      have "transparent (w @ CHR 0x22 # p)"
        using w(2) p(2) by (intro transparent_append quote_closes)
      then have "object_text (CHR ''{'' # (w @ CHR 0x22 # p) @ [CHR ''}''])"
        unfolding object_text_def by blast
      moreover have "s = (CHR ''{'' # (w @ CHR 0x22 # p) @ [CHR ''}'']) @ rest"
        unfolding s obj w(1) members p(1) by simp
      ultimately show ?thesis
        unfolding value_extent_def using object_text_transparent by blast
    qed
  next
    case arr
    from run' arr obtain c r0 where sk: "skip_ws cs = c # r0"
      by (cases "skip_ws cs") auto
    from skip_ws_decomp [of cs] obtain w where w: "cs = w @ c # r0" "transparent w"
      unfolding sk by blast
    note run'' = run' [unfolded sk list.case]
    have hd: "hd s \<noteq> CHR ''{''"
      unfolding s arr by simp
    have open_bracket: "transparent [CHR ''['']"
      by (rule transparent_char) simp_all
    show ?thesis
    proof (cases "c = CHR '']''")
      case True
      with run'' arr have "rest = r0" by simp
      then have "s = ([CHR ''[''] @ w @ [CHR '']'']) @ rest"
        unfolding s arr w(1) True by simp
      moreover have "transparent ([CHR ''[''] @ w @ [CHR '']''])"
        using open_bracket w(2) by (intro transparent_append transparent_char) simp_all
      ultimately show ?thesis
        using hd by (rule value_extentI)
    next
      case False
      with run'' arr obtain vs where "json_array n (c # r0) [] = Parsed (vs, rest)"
        by (auto split: parsed.splits)
      from IH2 [OF this] obtain p where p: "c # r0 = p @ rest" "transparent p"
        unfolding array_extent_def by blast
      have "s = ([CHR ''[''] @ w @ p) @ rest"
        unfolding s arr w(1) p(1) by simp
      moreover have "transparent ([CHR ''[''] @ w @ p)"
        using open_bracket w(2) p(2) by (intro transparent_append)
      ultimately show ?thesis
        using hd by (rule value_extentI)
    qed
  next
    case other
    have hd: "hd s \<noteq> CHR ''{''"
      unfolding s using other(2) by simp
    note run'' = run' [folded s]
    consider (null) "prefix ''null'' s" "rest = drop 4 s"
      | (true) "prefix ''true'' s" "rest = drop 4 s"
      | (false) "prefix ''false'' s" "rest = drop 5 s"
      | (number) g ms where "rmatch False NUMBER_RE (s, []) = (rest, g) # ms"
      | (nan) "prefix ''NaN'' s" "rest = drop 3 s"
      | (inf) "prefix ''Infinity'' s" "rest = drop 8 s"
      | (neginf) "prefix ''-Infinity'' s" "rest = drop 9 s"
      using run'' other by (auto split: if_splits list.splits)
    then show ?thesis
    proof cases
      case null
      show ?thesis
        unfolding null(2) by (rule literal_extent [OF null(1) hd]) simp_all
    next
      case true
      show ?thesis
        unfolding true(2) by (rule literal_extent [OF true(1) hd]) simp_all
    next
      case false
      show ?thesis
        unfolding false(2) by (rule literal_extent [OF false(1) hd]) simp_all
    next
      case number
      from number_consumed [OF this] hd show ?thesis
        unfolding value_extent_def by blast
    next
      case nan
      show ?thesis
        unfolding nan(2) by (rule literal_extent [OF nan(1) hd]) simp_all
    next
      case inf
      show ?thesis
        unfolding inf(2) by (rule literal_extent [OF inf(1) hd]) simp_all
    next
      case neginf
      show ?thesis
        unfolding neginf(2) by (rule literal_extent [OF neginf(1) hd]) simp_all
    qed
  qed
qed

lemma skip_ws_Cons:
  assumes "skip_ws s = c # r"
  shows "\<exists>w. s = w @ c # r \<and> transparent w"
  using skip_ws_decomp [of s] unfolding assms .

lemma array_step:
  assumes IH1: "\<And>s v rest. json_value n s = Parsed (v, rest) \<Longrightarrow> value_extent s rest"
    and IH2: "\<And>s values vs rest. json_array n s values = Parsed (vs, rest) \<Longrightarrow> array_extent s rest"
    and run: "json_array (Suc n) s values = Parsed (vs, rest)"
  shows "array_extent s rest"
proof -
  note run' = run [unfolded json_array.simps]
  from run' obtain v r1 where v: "json_value n s = Parsed (v, r1)"
    by (cases "json_value n s") auto
  from IH1 [OF v] obtain p1 where p1: "s = p1 @ r1" "transparent p1"
    unfolding value_extent_def by blast
  note run2 = run' [unfolded v parsed.case prod.case]
  from run2 obtain nextchar r2 where sk: "skip_ws r1 = nextchar # r2"
    by (cases "skip_ws r1") auto
  from skip_ws_Cons [OF sk] obtain w where w: "r1 = w @ nextchar # r2" "transparent w"
    by blast
  note run3 = run2 [unfolded sk list.case]
  consider (close) "nextchar = CHR '']''" | (comma) "nextchar \<noteq> CHR '']''" "nextchar = CHR '',''"
    using run3 by (auto split: if_splits)
  then show ?thesis
  proof cases
    case close
    with run3 have "rest = r2" by simp
    then have "s = (p1 @ w @ [CHR '']'']) @ rest"
      unfolding p1(1) w(1) close by simp
    moreover have "transparent (p1 @ w @ [CHR '']''])"
      using p1(2) w(2) by (intro transparent_append transparent_char) simp_all
    ultimately show ?thesis
      unfolding array_extent_def by blast
  next
    case comma
    with run3 have "json_array n (skip_ws r2) (values @ [v]) = Parsed (vs, rest)"
      by simp
    from IH2 [OF this] obtain p2 where p2: "skip_ws r2 = p2 @ rest" "transparent p2"
      unfolding array_extent_def by blast
    from skip_ws_decomp [of r2] obtain w2 where w2: "r2 = w2 @ p2 @ rest" "transparent w2"
      unfolding p2(1) by blast
    have "s = (p1 @ w @ [CHR '',''] @ w2 @ p2) @ rest"
      unfolding p1(1) w(1) comma using w2(1) by simp
    moreover have "transparent (p1 @ w @ [CHR '',''] @ w2 @ p2)"
      using p1(2) w(2) w2(2) p2(2) by (intro transparent_append transparent_char) simp_all
    ultimately show ?thesis
      unfolding array_extent_def by blast
  qed
qed

lemma object_step:
  assumes IH1: "\<And>s v rest. json_value n s = Parsed (v, rest) \<Longrightarrow> value_extent s rest"
    and IH3: "\<And>s pairs ps rest. json_object n s pairs = Parsed (ps, rest) \<Longrightarrow> members_extent s rest"
    and run: "json_object (Suc n) s pairs = Parsed (ps, rest)"
  shows "members_extent s rest"
proof -
  note run' = run [unfolded json_object.simps]
  from run' obtain key r1 where key: "scanstring s [] = Some (key, r1)"
    by (cases "scanstring s []") auto
  from scanstring_closes [OF key] obtain pk where pk: "s = pk @ r1" "closes_string pk"
    by blast
  note run1 = run' [unfolded key option.case prod.case]
  from run1 obtain colon r2 where sk1: "skip_ws r1 = colon # r2"
    by (cases "skip_ws r1") auto
  from skip_ws_Cons [OF sk1] obtain w1 where w1: "r1 = w1 @ colon # r2" "transparent w1"
    by blast
  note run2 = run1 [unfolded sk1 list.case]
  from run2 have colon: "colon = CHR '':''"
    by (auto split: if_splits)
  from run2 colon obtain v r3 where v: "json_value n (skip_ws r2) = Parsed (v, r3)"
    by (cases "json_value n (skip_ws r2)") auto
  from IH1 [OF v] obtain pv where pv: "skip_ws r2 = pv @ r3" "transparent pv"
    unfolding value_extent_def by blast
  from skip_ws_decomp [of r2] obtain w2 where w2: "r2 = w2 @ pv @ r3" "transparent w2"
    unfolding pv(1) by blast
  from run2 colon have run3: "(case skip_ws r3 of
       [] \<Rightarrow> Invalid
     | nextchar # rest3 \<Rightarrow>
         if nextchar = CHR ''}'' then Parsed (pairs @ [(key, v)], rest3)
         else if nextchar = CHR '','' then
           (case skip_ws rest3 of
              [] \<Rightarrow> Invalid
            | quote # rest4 \<Rightarrow>
                if quote = CHR 0x22 then json_object n rest4 (pairs @ [(key, v)]) else Invalid)
         else Invalid) = Parsed (ps, rest)"
    unfolding v by simp
  from run3 obtain nextchar r4 where sk3: "skip_ws r3 = nextchar # r4"
    by (cases "skip_ws r3") auto
  from skip_ws_Cons [OF sk3] obtain w3 where w3: "r3 = w3 @ nextchar # r4" "transparent w3"
    by blast
  note run4 = run3 [unfolded sk3 list.case]
  have colon_plain: "transparent [CHR '':'']" and comma_plain: "transparent [CHR '','']"
    by (rule transparent_char; simp)+
  have member: "transparent (w1 @ [CHR '':''] @ w2 @ pv @ w3)"
    using w1(2) colon_plain w2(2) pv(2) w3(2) by (intro transparent_append)
  have s: "s = pk @ (w1 @ [CHR '':''] @ w2 @ pv @ w3) @ nextchar # r4"
    unfolding pk(1) w1(1) colon using w2(1) w3(1) by simp
  consider (close) "nextchar = CHR ''}''" | (comma) "nextchar \<noteq> CHR ''}''" "nextchar = CHR '',''"
    using run4 by (auto split: if_splits)
  then show ?thesis
  proof cases
    case close
    with run4 have "rest = r4" by simp
    then have "s = (pk @ (w1 @ [CHR '':''] @ w2 @ pv @ w3)) @ CHR ''}'' # rest"
      using s unfolding close by simp
    moreover have "closes_string (pk @ (w1 @ [CHR '':''] @ w2 @ pv @ w3))"
      using pk(2) member by (rule closes_transparent)
    ultimately show ?thesis
      unfolding members_extent_def by blast
  next
    case comma
    with run4 obtain quote r5 where sk4: "skip_ws r4 = quote # r5"
      by (cases "skip_ws r4") auto
    from skip_ws_Cons [OF sk4] obtain w4 where w4: "r4 = w4 @ quote # r5" "transparent w4"
      by blast
    from run4 comma have quote: "quote = CHR 0x22"
      and next_run: "json_object n r5 (pairs @ [(key, v)]) = Parsed (ps, rest)"
      unfolding sk4 by (auto split: if_splits)
    from IH3 [OF next_run] obtain p5 where p5: "r5 = p5 @ CHR ''}'' # rest" "closes_string p5"
      unfolding members_extent_def by blast
    have "transparent ([CHR '',''] @ w4 @ CHR 0x22 # p5)"
      using comma_plain w4(2) p5(2) by (intro transparent_append quote_closes)
    with member
    have "transparent ((w1 @ [CHR '':''] @ w2 @ pv @ w3) @ [CHR '',''] @ w4 @ CHR 0x22 # p5)"
      by (rule transparent_append)
    with pk(2) have "closes_string
        (pk @ (w1 @ [CHR '':''] @ w2 @ pv @ w3) @ [CHR '',''] @ w4 @ CHR 0x22 # p5)"
      by (rule closes_transparent)
    moreover have "s =
        (pk @ (w1 @ [CHR '':''] @ w2 @ pv @ w3) @ [CHR '',''] @ w4 @ CHR 0x22 # p5) @ CHR ''}'' # rest"
      using s unfolding comma w4(1) quote p5(1) by simp
    ultimately show ?thesis
      unfolding members_extent_def by blast
  qed
qed

lemma json_extents:
  "(\<forall>s v rest. json_value n s = Parsed (v, rest) \<longrightarrow> value_extent s rest) \<and>
   (\<forall>s values vs rest. json_array n s values = Parsed (vs, rest) \<longrightarrow> array_extent s rest) \<and>
   (\<forall>s pairs ps rest. json_object n s pairs = Parsed (ps, rest) \<longrightarrow> members_extent s rest)"
proof (induction n)
  case 0
  show ?case by simp
next
  case (Suc n)
  then have IH1: "\<And>s v rest. json_value n s = Parsed (v, rest) \<Longrightarrow> value_extent s rest"
    and IH2: "\<And>s values vs rest. json_array n s values = Parsed (vs, rest) \<Longrightarrow> array_extent s rest"
    and IH3: "\<And>s pairs ps rest. json_object n s pairs = Parsed (ps, rest) \<Longrightarrow> members_extent s rest"
    by blast+
  show ?case
  proof (intro conjI allI impI)
    fix s v rest
    assume "json_value (Suc n) s = Parsed (v, rest)"
    with IH2 IH3 show "value_extent s rest"
      by (rule value_step)
  next
    fix s vals vs rest
    assume "json_array (Suc n) s vals = Parsed (vs, rest)"
    with IH1 IH2 show "array_extent s rest"
      by (rule array_step)
  next
    fix s pairs ps rest
    assume "json_object (Suc n) s pairs = Parsed (ps, rest)"
    with IH1 IH3 show "members_extent s rest"
      by (rule object_step)
  qed
qed

subsection \<open>The scan from the opening brace of an object\<close>

lemma json_loads_extent:
  assumes "json_loads s = Some parsed"
  shows "\<exists>rest. value_extent (skip_ws s) rest \<and> skip_ws rest = []"
proof -
  from assms obtain rest where
    "json_value (2 * length s + 2) (skip_ws s) = Parsed (parsed, rest)" "skip_ws rest = []"
    unfolding json_loads_def by (auto split: parsed.splits if_splits)
  with json_extents [of "2 * length s + 2"] show ?thesis
    by blast
qed

lemma object_scanned:
  assumes "object_text p"
  shows "match_brackets (enumerate start (p @ after)) 0 False False e = (0, start + length p)"
proof -
  from assms obtain mid where p: "p = CHR ''{'' # mid @ [CHR ''}'']" and mid: "transparent mid"
    unfolding object_text_def by blast
  have "match_brackets (enumerate start (p @ after)) 0 False False e =
        match_brackets (enumerate (Suc start) (mid @ CHR ''}'' # after)) 1 False False e"
    unfolding p by (simp add: enumerate_simps)
  also have "\<dots> = match_brackets (enumerate (Suc start + length mid) (CHR ''}'' # after)) 1 False False e"
    using mid unfolding transparent_def by simp
  also have "\<dots> = (0, start + length p)"
    unfolding p by (simp add: enumerate_simps)
  finally show ?thesis .
qed

lemma object_text_of_loads:
  assumes "json_loads obj = Some parsed" "hd obj = CHR ''{''" "last obj = CHR ''}''"
  shows "object_text obj"
proof -
  from assms(1) have ne: "obj \<noteq> []"
    unfolding json_loads_def by (auto simp: skip_ws_def numeral_2_eq_2)
  with assms(2) have "\<not> is_json_ws (hd obj)"
    unfolding is_json_ws_def by simp
  with ne have sk: "skip_ws obj = obj"
    unfolding skip_ws_def by (cases obj) auto
  from json_loads_extent [OF assms(1)] obtain rest p where
    rest: "skip_ws rest = []" and p: "obj = p @ rest" "object_text p"
    unfolding sk value_extent_def using assms(2) by blast
  have "rest = []"
  proof (rule ccontr)
    assume r: "rest \<noteq> []"
    from rest have "\<forall>c\<in>set rest. is_json_ws c"
      unfolding skip_ws_def by (simp add: dropWhile_eq_Nil_conv)
    with r have "is_json_ws (last rest)"
      by simp
    moreover have "last obj = last rest"
      unfolding p(1) using r by simp
    ultimately show False
      using assms(3) unfolding is_json_ws_def by auto
  qed
  with p show ?thesis by simp
qed

lemma opening_brace_found:
  assumes "content ! p = CHR ''{''" "p \<le> q" "\<forall>j. p < j \<and> j \<le> q \<longrightarrow> content ! j \<noteq> CHR ''{''"
  shows "opening_brace content q = p"
  using assms(2,3)
proof (induction q)
  case 0
  then show ?case by simp
next
  case (Suc q)
  show ?case
  proof (cases "p = Suc q")
    case True
    with assms(1) show ?thesis by simp
  next
    case False
    with Suc.prems have "p \<le> q" "content ! Suc q \<noteq> CHR ''{''"
      "\<forall>j. p < j \<and> j \<le> q \<longrightarrow> content ! j \<noteq> CHR ''{''"
      by auto
    with Suc.IH show ?thesis by simp
  qed
qed

text \<open>The scan begun at the opening brace of an object that \<^verbatim>\<open>json.loads\<close>
  accepts ends after its closing brace, whatever its string values hold.\<close>

lemma scan_full_object:
  assumes "json_loads obj = Some parsed" "hd obj = CHR ''{''" "last obj = CHR ''}''"
  shows "match_brackets (enumerate (length before) (obj @ after)) 0 False False (length before) =
           (0, length before + length obj)"
  using object_scanned [OF object_text_of_loads [OF assms], of "length before" after "length before"]
  by simp

subsection \<open>The Locator on an object in prose\<close>

lemma bracket_pass_finds_object:
  assumes obj: "json_loads obj = Some (JObject members)"
    and key: "code_points json_type \<in> fst ` set members"
    and shape: "hd obj = CHR ''{''" "last obj = CHR ''}''"
    and no_fence: "code_blocks (finditer False code_block_pattern (before @ obj @ after))
                     json_type = None"
    and first: "str_find (before @ obj @ after) ([CHR 0x22] @ json_type @ [CHR 0x22]) =
                  Some (length before + k)"
    and inside: "k < length obj" "\<forall>j. 0 < j \<and> j \<le> k \<longrightarrow> obj ! j \<noteq> CHR ''{''"
  shows "find_json_containing (before @ obj @ after) json_type = Some obj"
proof -
  let ?content = "before @ obj @ after"
  from obj have ne: "obj \<noteq> []"
    unfolding json_loads_def by (auto simp: skip_ws_def numeral_2_eq_2)
  have at: "?content ! (length before + j) = obj ! j" if "j < length obj" for j
    using that by (simp add: nth_append)
  have "?content ! length before = CHR ''{''"
    using at [of 0] ne shape(1) by (simp add: hd_conv_nth)
  moreover have "\<forall>j. length before < j \<and> j \<le> length before + k \<longrightarrow> ?content ! j \<noteq> CHR ''{''"
  proof (intro allI impI)
    fix j
    assume j: "length before < j \<and> j \<le> length before + k"
    then have "0 < j - length before \<and> j - length before \<le> k"
      by auto
    with inside have "obj ! (j - length before) \<noteq> CHR ''{''" "j - length before < length obj"
      by auto
    with at [of "j - length before"] j show "?content ! j \<noteq> CHR ''{''"
      by simp
  qed
  ultimately have start: "opening_brace ?content (length before + k) = length before"
    by (intro opening_brace_found) simp_all
  have brace: "?content ! length before = CHR ''{''"
    by fact
  have scan: "match_brackets (enumerate (length before) (obj @ after))
      0 False False (length before) = (0, length before + length obj)"
    using obj shape by (rule scan_full_object)
  have first': "str_find ?content (CHR 0x22 # json_type @ [CHR 0x22]) = Some (length before + k)"
    using first by (simp del: str_find.simps)
  show ?thesis
    unfolding find_json_containing_def Let_def no_fence
    by (simp add: first' start brace scan obj key del: str_find.simps)
qed




subsection \<open>Braces and escaped quotes inside string values\<close>

text \<open>
  Claim C6, as the code has it. Let \<open>obj\<close> be a text that \<^verbatim>\<open>json.loads\<close> accepts as an
  object with the marker key among its top-level keys, written from its opening to its
  closing brace, whatever braces and escaped quotes its string values hold, and let it
  stand between any two texts. If the fenced-block pass finds nothing in the whole text,
  the first occurrence of the quoted marker key in the whole text lies in \<open>obj\<close>, and no
  brace \<^verbatim>\<open>{\<close> of \<open>obj\<close> other than the opening one comes before that occurrence, then
  the bracket-matching scan starts at the opening brace of \<open>obj\<close> and leaves the loop with
  depth 0 at the character after its closing brace, and the Locator returns the whole of
  \<open>obj\<close>, not a prefix of it.
\<close>

theorem braces_in_strings_full_object:
  assumes obj: "json_loads obj = Some (JObject members)"
    and key: "code_points json_type \<in> fst ` set members"
    and shape: "hd obj = CHR ''{''" "last obj = CHR ''}''"
    and no_fence: "code_blocks (finditer False code_block_pattern (before @ obj @ after))
                     json_type = None"
    and first: "str_find (before @ obj @ after) ([CHR 0x22] @ json_type @ [CHR 0x22]) =
                  Some (length before + k)"
    and inside: "k < length obj" "\<forall>j. 0 < j \<and> j \<le> k \<longrightarrow> obj ! j \<noteq> CHR ''{''"
  shows "opening_brace (before @ obj @ after) (length before + k) = length before \<and>
         match_brackets
           (enumerate (length before) (drop (length before) (before @ obj @ after)))
           0 False False (length before) = (0, length before + length obj) \<and>
         find_json_containing (before @ obj @ after) json_type = Some obj"
proof -
  let ?content = "before @ obj @ after"
  from obj have ne: "obj \<noteq> []"
    unfolding json_loads_def by (auto simp: skip_ws_def numeral_2_eq_2)
  have at: "?content ! (length before + j) = obj ! j" if "j < length obj" for j
    using that by (simp add: nth_append)
  have "?content ! length before = CHR ''{''"
    using at [of 0] ne shape(1) by (simp add: hd_conv_nth)
  moreover have "\<forall>j. length before < j \<and> j \<le> length before + k \<longrightarrow> ?content ! j \<noteq> CHR ''{''"
  proof (intro allI impI)
    fix j
    assume j: "length before < j \<and> j \<le> length before + k"
    then have "0 < j - length before \<and> j - length before \<le> k"
      by auto
    with inside have "obj ! (j - length before) \<noteq> CHR ''{''" "j - length before < length obj"
      by auto
    with at [of "j - length before"] j show "?content ! j \<noteq> CHR ''{''"
      by simp
  qed
  ultimately have "opening_brace ?content (length before + k) = length before"
    by (intro opening_brace_found) simp_all
  moreover have "match_brackets (enumerate (length before) (drop (length before) ?content))
      0 False False (length before) = (0, length before + length obj)"
    using scan_full_object [OF obj shape, of before after] by simp
  moreover have "find_json_containing ?content json_type = Some obj"
    using assms by (rule bracket_pass_finds_object)
  ultimately show ?thesis
    by simp
qed

theorem braces_in_strings_full_object_witness:
  "find_json_containing
     (''say '' @ (''{\"RALPH_STATUS\":\"a } b '' @ [CHR 0x5C] @ ''\" c\"}'') @ '' } end'')
     ''RALPH_STATUS'' =
     Some (''{\"RALPH_STATUS\":\"a } b '' @ [CHR 0x5C] @ ''\" c\"}'') \<and>
   match_brackets
     (enumerate (length ''say '')
        (drop (length ''say '')
           (''say '' @ (''{\"RALPH_STATUS\":\"a } b '' @ [CHR 0x5C] @ ''\" c\"}'') @ '' } end'')))
     0 False False (length ''say '') =
     (0, length ''say '' + length (''{\"RALPH_STATUS\":\"a } b '' @ [CHR 0x5C] @ ''\" c\"}''))"
proof -
  let ?obj = "''{\"RALPH_STATUS\":\"a } b '' @ [CHR 0x5C] @ ''\" c\"}''"
  have 1: "json_loads ?obj =
     Some (JObject [(code_points ''RALPH_STATUS'',
                     JString (code_points (''a } b '' @ [CHR 0x22] @ '' c'')))])"
    by code_simp
  have 2: "code_points ''RALPH_STATUS'' \<in>
      fst ` set [(code_points ''RALPH_STATUS'',
                  JString (code_points (''a } b '' @ [CHR 0x22] @ '' c'')))]"
    by simp
  have 3: "hd ?obj = CHR ''{''" and 4: "last ?obj = CHR ''}''"
    by simp_all
  have 5: "code_blocks (finditer False code_block_pattern (''say '' @ ?obj @ '' } end''))
      ''RALPH_STATUS'' = None"
    by code_simp
  have 6: "str_find (''say '' @ ?obj @ '' } end'') ([CHR 0x22] @ ''RALPH_STATUS'' @ [CHR 0x22]) =
      Some (length ''say '' + 1)"
    by code_simp
  have 7: "1 < length ?obj"
    by simp
  have 8: "\<forall>j. 0 < j \<and> j \<le> 1 \<longrightarrow> ?obj ! j \<noteq> CHR ''{''"
  proof (intro allI impI)
    fix j :: nat
    assume "0 < j \<and> j \<le> 1"
    then have "j = 1" by simp
    then show "?obj ! j \<noteq> CHR ''{''" by simp
  qed
  from braces_in_strings_full_object [OF 1 2 3 4 5 6 7 8] show ?thesis
    by simp
qed

text \<open>
  Without the condition on the braces before the key the claim fails. The object below
  has a brace and an escaped quote inside a string value that stands before the marker
  key. The search for the opening brace stops at the brace inside the string, the text
  cut from there is not JSON, and the Locator returns nothing.
\<close>

theorem brace_in_string_before_key:
  "json_loads (''{\"note\":\"a { b '' @ [CHR 0x5C] @ ''\" c\",\"RALPH_STATUS\":\"ok\"}'') =
     Some (JObject [(code_points ''note'', JString (code_points (''a { b '' @ [CHR 0x22] @ '' c''))),
                    (code_points ''RALPH_STATUS'', JString (code_points ''ok''))]) \<and>
   find_json_containing
     (''{\"note\":\"a { b '' @ [CHR 0x5C] @ ''\" c\",\"RALPH_STATUS\":\"ok\"}'')
     ''RALPH_STATUS'' = None"
  by code_simp

subsection \<open>The fuel of the decoder is enough\<close>

text \<open>With fuel of twice the length of its input and one or two more, no decoding
  function runs out of fuel: \<^term>\<open>json_loads\<close> is \<^term>\<open>None\<close> only where the text is
  not valid.\<close>

lemma skip_ws_length: "length (skip_ws s) \<le> length s"
  unfolding skip_ws_def by (rule length_dropWhile_le)

lemma skip_ws_Cons_length: "skip_ws s = c # r \<Longrightarrow> length r < length s"
  using skip_ws_length [of s] by simp

lemma value_rest_length:
  "json_value n s = Parsed (v, rest) \<Longrightarrow> length rest \<le> length s"
  using json_extents [of n] unfolding value_extent_def by fastforce

lemma scanstring_rest_length:
  "scanstring s chunks = Some (str, rest) \<Longrightarrow> length rest \<le> length s"
  using scanstring_closes [of s chunks str rest] by fastforce

lemma value_fuel_step:
  assumes IH2: "\<And>s vals. 2 * length s + 2 \<le> n \<Longrightarrow> json_array n s vals \<noteq> NoFuel"
    and IH3: "\<And>s pairs. 2 * length s + 2 \<le> n \<Longrightarrow> json_object n s pairs \<noteq> NoFuel"
    and fuel: "2 * length s + 1 \<le> Suc n"
  shows "json_value (Suc n) s \<noteq> NoFuel"
proof (cases s)
  case Nil
  then show ?thesis by simp
next
  case (Cons nextchar cs)
  consider (str) "nextchar = CHR 0x22" | (obj) "nextchar = CHR ''{''" | (arr) "nextchar = CHR ''[''"
    | (other) "nextchar \<noteq> CHR 0x22" "nextchar \<noteq> CHR ''{''" "nextchar \<noteq> CHR ''[''"
    by blast
  then show ?thesis
  proof cases
    case str
    then show ?thesis
      unfolding Cons by (simp split: option.splits)
  next
    case obj
    show ?thesis
    proof (cases "skip_ws cs")
      case Nil
      with obj show ?thesis
        unfolding Cons by simp
    next
      case sk: (Cons c r)
      then have "length r < length cs"
        by (rule skip_ws_Cons_length)
      with fuel have "2 * length r + 2 \<le> n"
        unfolding Cons by simp
      then have "json_object n r [] \<noteq> NoFuel"
        by (rule IH3)
      with obj sk show ?thesis
        unfolding Cons by (simp split: parsed.splits)
    qed
  next
    case arr
    show ?thesis
    proof (cases "skip_ws cs")
      case Nil
      with arr show ?thesis
        unfolding Cons by simp
    next
      case sk: (Cons c r)
      then have "length (c # r) \<le> length cs"
        using skip_ws_length [of cs] by simp
      with fuel have "2 * length (c # r) + 2 \<le> n"
        unfolding Cons by simp
      then have "json_array n (c # r) [] \<noteq> NoFuel"
        by (rule IH2)
      with arr sk show ?thesis
        unfolding Cons by (simp split: parsed.splits)
    qed
  next
    case other
    have "json_value (Suc n) s =
        (if prefix ''null'' s then Parsed (JNull, drop 4 s)
         else if prefix ''true'' s then Parsed (JBool True, drop 4 s)
         else if prefix ''false'' s then Parsed (JBool False, drop 5 s)
         else
           (case rmatch False NUMBER_RE (s, []) of
              (rest, _) # _ \<Rightarrow> Parsed (JNumber (take (length s - length rest) s), rest)
            | [] \<Rightarrow>
                if prefix ''NaN'' s then Parsed (JNumber ''NaN'', drop 3 s)
                else if prefix ''Infinity'' s then Parsed (JNumber ''Infinity'', drop 8 s)
                else if prefix ''-Infinity'' s then Parsed (JNumber ''-Infinity'', drop 9 s)
                else Invalid))"
      unfolding json_value.simps Cons list.case using other by (simp only: if_False)
    also have "\<dots> \<noteq> NoFuel"
      by (cases "rmatch False NUMBER_RE (s, [])") (simp_all split: prod.splits)
    finally show ?thesis .
  qed
qed

lemma array_fuel_step:
  assumes IH1: "\<And>s. 2 * length s + 1 \<le> n \<Longrightarrow> json_value n s \<noteq> NoFuel"
    and IH2: "\<And>s vals. 2 * length s + 2 \<le> n \<Longrightarrow> json_array n s vals \<noteq> NoFuel"
    and fuel: "2 * length s + 2 \<le> Suc n"
  shows "json_array (Suc n) s vals \<noteq> NoFuel"
proof (cases "json_value n s")
  case NoFuel
  moreover from fuel have "json_value n s \<noteq> NoFuel"
    by (intro IH1) simp
  ultimately show ?thesis by simp
next
  case Invalid
  then show ?thesis by simp
next
  case (Parsed x)
  then obtain v rest where v: "json_value n s = Parsed (v, rest)"
    by (cases x) simp
  show ?thesis
  proof (cases "skip_ws rest")
    case Nil
    with v show ?thesis by simp
  next
    case sk: (Cons c r')
    have "length rest \<le> length s" "length r' < length rest"
      using v sk by (auto dest: value_rest_length skip_ws_Cons_length)
    with fuel skip_ws_length [of r'] have "2 * length (skip_ws r') + 2 \<le> n"
      by simp
    then have "json_array n (skip_ws r') (vals @ [v]) \<noteq> NoFuel"
      by (rule IH2)
    with v sk show ?thesis by simp
  qed
qed

lemma object_fuel_step:
  assumes IH1: "\<And>s. 2 * length s + 1 \<le> n \<Longrightarrow> json_value n s \<noteq> NoFuel"
    and IH3: "\<And>s pairs. 2 * length s + 2 \<le> n \<Longrightarrow> json_object n s pairs \<noteq> NoFuel"
    and fuel: "2 * length s + 2 \<le> Suc n"
  shows "json_object (Suc n) s pairs \<noteq> NoFuel"
proof (cases "scanstring s []")
  case None
  then show ?thesis by simp
next
  case (Some x)
  then obtain key r1 where key: "scanstring s [] = Some (key, r1)"
    by (cases x) simp
  then have l1: "length r1 \<le> length s"
    by (rule scanstring_rest_length)
  show ?thesis
  proof (cases "skip_ws r1")
    case Nil
    with key show ?thesis by simp
  next
    case sk1: (Cons colon r2)
    then have l2: "length r2 < length r1"
      by (rule skip_ws_Cons_length)
    show ?thesis
    proof (cases "colon = CHR '':''")
      case False
      with key sk1 show ?thesis by simp
    next
      case colon: True
      have "2 * length (skip_ws r2) + 1 \<le> n"
        using fuel l1 l2 skip_ws_length [of r2] by simp
      then have nf: "json_value n (skip_ws r2) \<noteq> NoFuel"
        by (rule IH1)
      show ?thesis
      proof (cases "json_value n (skip_ws r2)")
        case NoFuel
        with nf show ?thesis by simp
      next
        case Invalid
        with key sk1 colon show ?thesis by simp
      next
        case (Parsed y)
        then obtain v r3 where v: "json_value n (skip_ws r2) = Parsed (v, r3)"
          by (cases y) simp
        then have l3: "length r3 \<le> length (skip_ws r2)"
          by (rule value_rest_length)
        show ?thesis
        proof (cases "skip_ws r3")
          case Nil
          with key sk1 colon v show ?thesis by simp
        next
          case sk3: (Cons nextchar r4)
          then have l4: "length r4 < length r3"
            by (rule skip_ws_Cons_length)
          show ?thesis
          proof (cases "skip_ws r4")
            case Nil
            with key sk1 colon v sk3 show ?thesis by simp
          next
            case sk4: (Cons quote r5)
            then have "length r5 < length r4"
              by (rule skip_ws_Cons_length)
            with fuel l1 l2 l3 l4 skip_ws_length [of r2] have "2 * length r5 + 2 \<le> n"
              by simp
            then have "json_object n r5 (pairs @ [(key, v)]) \<noteq> NoFuel"
              by (rule IH3)
            with key sk1 colon v sk3 sk4 show ?thesis by simp
          qed
        qed
      qed
    qed
  qed
qed

lemma json_fuel:
  "(\<forall>s. 2 * length s + 1 \<le> n \<longrightarrow> json_value n s \<noteq> NoFuel) \<and>
   (\<forall>s vals. 2 * length s + 2 \<le> n \<longrightarrow> json_array n s vals \<noteq> NoFuel) \<and>
   (\<forall>s pairs. 2 * length s + 2 \<le> n \<longrightarrow> json_object n s pairs \<noteq> NoFuel)"
proof (induction n)
  case 0
  show ?case by simp
next
  case (Suc n)
  then have IH1: "\<And>s. 2 * length s + 1 \<le> n \<Longrightarrow> json_value n s \<noteq> NoFuel"
    and IH2: "\<And>s vals. 2 * length s + 2 \<le> n \<Longrightarrow> json_array n s vals \<noteq> NoFuel"
    and IH3: "\<And>s pairs. 2 * length s + 2 \<le> n \<Longrightarrow> json_object n s pairs \<noteq> NoFuel"
    by blast+
  show ?case
  proof (intro conjI allI impI)
    fix s :: string
    assume "2 * length s + 1 \<le> Suc n"
    with IH2 IH3 show "json_value (Suc n) s \<noteq> NoFuel"
      by (rule value_fuel_step)
  next
    fix s :: string and vals :: "json list"
    assume "2 * length s + 2 \<le> Suc n"
    with IH1 IH2 show "json_array (Suc n) s vals \<noteq> NoFuel"
      by (rule array_fuel_step)
  next
    fix s :: string and pairs :: "(nat list \<times> json) list"
    assume "2 * length s + 2 \<le> Suc n"
    with IH1 IH3 show "json_object (Suc n) s pairs \<noteq> NoFuel"
      by (rule object_fuel_step)
  qed
qed

lemma json_value_fuel: "json_value (2 * length s + 2) (skip_ws s) \<noteq> NoFuel"
proof -
  have "2 * length (skip_ws s) + 1 \<le> 2 * length s + 2"
    using skip_ws_length [of s] by simp
  with json_fuel [of "2 * length s + 2"] show ?thesis
    by blast
qed

subsection \<open>The fenced-block pass\<close>

text \<open>A match of the fenced-block pattern consumes its two fences at least, so the
  search for the next match always starts further on.\<close>

lemma rmatch_min_len:
  "(s', g') \<in> set (rmatch ic r (s, g)) \<Longrightarrow> length s' + min_len r \<le> length s"
proof (induction r arbitrary: s g s' g')
  case (Atom a)
  then show ?case
    by (cases s) (auto split: if_splits)
next
  case (Rep a lo hi)
  then obtain k where "s' = drop k s" "lo \<le> k" "k \<le> length (takeWhile (atom_ok ic a) s)"
    by (auto simp: Let_def split: option.splits)
  moreover have "length (takeWhile (atom_ok ic a) s) \<le> length s"
    by (rule length_takeWhile_le)
  ultimately show ?case by simp
next
  case (RepLazy a lo)
  then obtain k where "s' = drop k s" "lo \<le> k" "k \<le> length (takeWhile (atom_ok ic a) s)"
    by (auto simp: Let_def)
  moreover have "length (takeWhile (atom_ok ic a) s) \<le> length s"
    by (rule length_takeWhile_le)
  ultimately show ?case by simp
next
  case (Opt r)
  from Opt.prems consider "(s', g') \<in> set (rmatch ic r (s, g))" | "s' = s"
    by auto
  then show ?case
  proof cases
    case 1
    from Opt.IH [OF this] show ?thesis by simp
  next
    case 2
    then show ?thesis by simp
  qed
next
  case (Seq r1 r2)
  from Seq.prems obtain s1 g1 where
    1: "(s1, g1) \<in> set (rmatch ic r1 (s, g))" and 2: "(s', g') \<in> set (rmatch ic r2 (s1, g1))"
    by auto
  from Seq.IH(1) [OF 1] Seq.IH(2) [OF 2] show ?case by simp
next
  case (Alt r1 r2)
  from Alt.prems consider "(s', g') \<in> set (rmatch ic r1 (s, g))"
    | "(s', g') \<in> set (rmatch ic r2 (s, g))"
    by auto
  then show ?case
  proof cases
    case 1
    from Alt.IH(1) [OF this] show ?thesis by simp
  next
    case 2
    from Alt.IH(2) [OF this] show ?thesis by simp
  qed
next
  case (Group i r)
  from Group.prems obtain g0 where "(s', g0) \<in> set (rmatch ic r (s, g))"
    by auto
  from Group.IH [OF this] show ?case by simp
qed

lemma re_search_Some:
  "re_search ic r s = Some m \<Longrightarrow> \<exists>t. suffix t s \<and> m \<in> set (rmatch ic r (t, []))"
proof (induction s)
  case Nil
  then show ?case
    by (auto simp: re_search_Nil split: list.splits)
next
  case (Cons c s)
  show ?case
  proof (cases "rmatch ic r (c # s, [])")
    case Nil
    with Cons.prems have "re_search ic r s = Some m"
      by (simp add: re_search_Cons)
    from Cons.IH [OF this] show ?thesis
      by (auto simp: suffix_Cons)
  next
    case (Cons m' ms)
    with Cons.prems have "m \<in> set (rmatch ic r (c # s, []))"
      by (simp add: re_search_Cons)
    then show ?thesis
      by (intro exI [of _ "c # s"]) simp
  qed
qed

lemma code_block_min_len: "min_len code_block_pattern = 10"
  by (simp add: code_block_pattern_def)

lemma code_block_progress:
  assumes "re_search False code_block_pattern s = Some m"
  shows "length (fst m) < length s"
proof -
  from re_search_Some [OF assms] obtain t where
    t: "suffix t s" "m \<in> set (rmatch False code_block_pattern (t, []))"
    by blast
  obtain s' g' where m: "m = (s', g')"
    by (cases m)
  from t(2) [unfolded m] have "length s' + min_len code_block_pattern \<le> length t"
    by (rule rmatch_min_len)
  then have "length (fst m) + min_len code_block_pattern \<le> length t"
    unfolding m by simp
  moreover from t(1) have "length t \<le> length s"
    by (rule suffix_length_le)
  ultimately show ?thesis
    unfolding code_block_min_len by simp
qed

lemma finditer_code_blocks:
  "finditer False code_block_pattern s =
     (case re_search False code_block_pattern s of
        None \<Rightarrow> []
      | Some m \<Rightarrow> m # finditer False code_block_pattern (fst m))"
  by (subst finditer.simps) (auto split: option.splits dest: code_block_progress)

text \<open>What the fenced-block pass returns is the stripped content of a fenced block that
  mentions the key, parses, and passes the membership test; and it is returned before
  the bracket-matching pass is tried.\<close>

lemma code_blocks_Some:
  "code_blocks matches json_type = Some block \<Longrightarrow>
     \<exists>m parsed. m \<in> set matches \<and> block = py_strip (group m 1) \<and>
       str_contains block json_type \<and> json_loads block = Some parsed \<and>
       json_in json_type parsed = Some True"
proof (induction matches)
  case Nil
  then show ?case by simp
next
  case (Cons m matches)
  show ?case
  proof (cases "code_blocks matches json_type = Some block")
    case True
    from Cons.IH [OF this] show ?thesis by auto
  next
    case False
    with Cons.prems have "block = py_strip (group m 1) \<and> str_contains block json_type \<and>
        (\<exists>parsed. json_loads block = Some parsed \<and> json_in json_type parsed = Some True)"
      by (auto simp: Let_def simp del: str_contains.simps
          split: if_splits option.splits bool.splits)
    then show ?thesis
      by (intro exI [of _ m]) auto
  qed
qed

lemma fenced_pass_first:
  assumes "code_blocks (finditer False code_block_pattern content) json_type = Some block"
  shows "find_json_containing content json_type = Some block"
  unfolding find_json_containing_def Let_def assms by simp

subsection \<open>What a successful return guarantees\<close>

text \<open>A text the Locator returns is accepted by \<^verbatim>\<open>json.loads\<close> and passes the
  membership test; when it comes from the bracket-matching pass it is an object with the
  marker key among its top-level keys.\<close>

lemma located_text_parses:
  assumes "find_json_containing content json_type = Some found"
  shows "\<exists>parsed. json_loads found = Some parsed \<and> json_in json_type parsed = Some True"
proof (cases "code_blocks (finditer False code_block_pattern content) json_type")
  case (Some block)
  with assms have "block = found"
    by (simp add: fenced_pass_first)
  with code_blocks_Some [OF Some] show ?thesis by blast
next
  case None
  with assms show ?thesis
    unfolding find_json_containing_def Let_def
    by (auto simp del: str_find.simps
        split: option.splits if_splits prod.splits bool.splits)
qed

lemma json_loads_nonempty: "json_loads found = Some parsed \<Longrightarrow> found \<noteq> []"
  unfolding json_loads_def by (auto simp: skip_ws_def numeral_2_eq_2)

lemma loads_brace_object:
  assumes "json_loads found = Some parsed" "hd found = CHR ''{''"
  shows "\<exists>members. parsed = JObject members"
proof -
  from assms(1) have "found \<noteq> []"
    by (rule json_loads_nonempty)
  with assms(2) obtain cs where shape: "found = CHR ''{'' # cs"
    by (cases found) auto
  have sk: "skip_ws found = found"
    unfolding shape skip_ws_def is_json_ws_def by simp
  obtain n where n: "2 * length found + 2 = Suc n"
    by simp
  from assms(1) obtain rest where "json_value (Suc n) found = Parsed (parsed, rest)"
    unfolding json_loads_def sk n by (auto split: parsed.splits if_splits)
  then show ?thesis
    unfolding shape json_value.simps
    by (auto split: list.splits if_splits parsed.splits)
qed

lemma bracket_pass_object:
  assumes "code_blocks (finditer False code_block_pattern content) json_type = None"
    and "find_json_containing content json_type = Some found"
  shows "\<exists>members. json_loads found = Some (JObject members) \<and>
           code_points json_type \<in> fst ` set members"
proof -
  from assms obtain start k parsed where
    brace: "content ! start = CHR ''{''" and
    cut: "found = take k (drop start content)" and
    parsed: "json_loads found = Some parsed" "json_in json_type parsed = Some True"
    unfolding find_json_containing_def Let_def
    by (auto simp del: str_find.simps split: option.splits if_splits prod.splits bool.splits)
  from parsed(1) have "found \<noteq> []"
    by (rule json_loads_nonempty)
  then have "0 < k" "start < length content"
    unfolding cut by (auto simp: not_less intro: ccontr)
  then have "hd found = content ! start"
    unfolding cut by (simp add: hd_drop_conv_nth)
  with brace loads_brace_object [OF parsed(1)] obtain members where "parsed = JObject members"
    by auto
  with parsed show ?thesis by simp
qed

end
